theory Spec2Isabelle
  imports Complex_Main "HOL-Library.AList" "HOL-Library.Sublist"
begin

section \<open>Runtime values\<close>

text \<open>
  The interpreter computes with plain JavaScript values. The model keeps the values
  the expression language can build: \<open>null\<close>, booleans, numbers, strings (a bytes
  literal is a string too), arrays and plain objects (maps and structs alike).

  Numbers are modelled as exact rationals: an idealisation of IEEE doubles that has no
  rounding, no NaN and no infinities. An object is the association list of its own
  properties, in the order \<open>Object.keys\<close> lists them; an object holds every key at most
  once, which the predicate \<open>wf\<close> below records. Properties inherited from
  \<open>Object.prototype\<close> are not part of the model.
\<close>

datatype val =
    VNull
  | VBool bool
  | VNum rat
  | VStr string
  | VList "val list"
  | VMap "(string \<times> val) list"

datatype error =
    EvaluationError string
  | Error string
  | RangeError string
  | ParseError string nat nat

fun wf :: "val \<Rightarrow> bool" where
  "wf (VList xs) = list_all wf xs"
| "wf (VMap m) = (distinct (map fst m) \<and> list_all (\<lambda>p. wf (snd p)) m)"
| "wf v = True"

text \<open>\<open>typeof v\<close>.\<close>

fun jsTypeof :: "val \<Rightarrow> string" where
  "jsTypeof VNull = ''object''"
| "jsTypeof (VBool b) = ''boolean''"
| "jsTypeof (VNum n) = ''number''"
| "jsTypeof (VStr s) = ''string''"
| "jsTypeof (VList xs) = ''object''"
| "jsTypeof (VMap m) = ''object''"

text \<open>\<open>Number.isInteger\<close> and \<open>Math.trunc\<close>.\<close>

definition isInteger :: "rat \<Rightarrow> bool" where
  "isInteger r = (of_int \<lfloor>r\<rfloor> = r)"

definition trunc :: "rat \<Rightarrow> int" where
  "trunc r = (if r < 0 then \<lceil>r\<rceil> else \<lfloor>r\<rfloor>)"

section \<open>Utilities\<close>


text \<open>
  \<open>compare\<close> of utilities.ts. The string case calls \<open>String.prototype.localeCompare\<close>,
  the collation of the host's locale; it is the parameter \<open>lc\<close>. The array loop runs over
  the common prefix and then returns \<open>a.length - b.length\<close>, which is the difference of
  the lengths of what is left of both arrays.
\<close>

fun compare :: "(string \<Rightarrow> string \<Rightarrow> rat) \<Rightarrow> val \<Rightarrow> val \<Rightarrow> error + rat"
  and compareElems :: "(string \<Rightarrow> string \<Rightarrow> rat) \<Rightarrow> val list \<Rightarrow> val list \<Rightarrow> error + rat"
where
  "compare lc VNull VNull = Inr 0"
| "compare lc VNull b = Inr (- 1)"
| "compare lc a VNull = Inr 1"
| "compare lc (VNum x) (VNum y) = Inr (x - y)"
| "compare lc (VStr s) (VStr t) = Inr (lc s t)"
| "compare lc (VBool p) (VBool q) = Inr (if p = q then 0 else if p then 1 else - 1)"
| "compare lc (VList xs) (VList ys) = compareElems lc xs ys"
| "compare lc a b =
     Inl (Error (''Cannot compare types: '' @ jsTypeof a @ '' and '' @ jsTypeof b))"
| "compareElems lc (x # xs) (y # ys) =
     (case compare lc x y of
        Inl e \<Rightarrow> Inl e
      | Inr cmp \<Rightarrow> if cmp \<noteq> 0 then Inr cmp else compareElems lc xs ys)"
| "compareElems lc xs ys = Inr (of_nat (length xs) - of_nat (length ys))"

text \<open>
  \<open>deepEquals\<close> of utilities.ts. The last equation is the final \<open>left === right\<close> on
  operands of different kinds (two arrays and two objects never reach it).
\<close>

fun deepEquals :: "val \<Rightarrow> val \<Rightarrow> bool"
  and deepEqualsElems :: "val list \<Rightarrow> val list \<Rightarrow> bool"
  and deepEqualsKeys :: "(string \<times> val) list \<Rightarrow> (string \<times> val) list \<Rightarrow> bool"
where
  "deepEquals VNull right = (right = VNull)"
| "deepEquals left VNull = False"
| "deepEquals (VList xs) (VList ys) =
     (if length xs \<noteq> length ys then False else deepEqualsElems xs ys)"
| "deepEquals (VMap l) (VMap r) =
     (if length (map fst l) \<noteq> length (map fst r) then False else deepEqualsKeys l r)"
| "deepEquals (VNum x) (VNum y) = (x = y)"
| "deepEquals (VStr s) (VStr t) = (s = t)"
| "deepEquals (VBool p) (VBool q) = (p = q)"
| "deepEquals left right = False"
| "deepEqualsElems (x # xs) (y # ys) =
     (if \<not> deepEquals x y then False else deepEqualsElems xs ys)"
| "deepEqualsElems xs ys = True"
| "deepEqualsKeys [] r = True"
| "deepEqualsKeys ((key, v) # l) r =
     (case map_of r key of
        None \<Rightarrow> False
      | Some w \<Rightarrow> if \<not> deepEquals v w then False else deepEqualsKeys l r)"

fun containsInArray :: "val list \<Rightarrow> val \<Rightarrow> bool" where
  "containsInArray [] v = False"
| "containsInArray (item # array) v = (if deepEquals item v then True else containsInArray array v)"

section \<open>Abstract syntax\<close>

datatype literalType = NULL_VALUE | BOOL | INT_LIT | UINT | DOUBLE | STRING | BYTES

datatype unaryOp = NOT | NEGATE

datatype binaryOp =
    ADD | SUBTRACT | MULTIPLY | DIVIDE | MODULO
  | EQUAL | NOT_EQUAL | LESS | LESS_EQUAL | GREATER | GREATER_EQUAL
  | IN | LOGICAL_AND | LOGICAL_OR

datatype expr =
    Literal val literalType
  | Identifier string
  | Select "expr option" string bool
  | Index expr expr
  | Call "expr option" string "expr list" bool
  | ListExpression "expr list"
  | MapExpression "(expr \<times> expr) list"
  | Struct "string option" "(string \<times> expr) list"
  | Comprehension string expr string expr expr expr expr
  | Unary unaryOp expr
  | Binary binaryOp expr expr
  | Conditional expr expr expr

section \<open>The host\<close>

text \<open>
  What the interpreter takes from its host: the function registry (\<open>callFunction\<close>,
  \<open>callMethod\<close>), the locale's string collation, and the formatting of a number that
  is not an integer below \<open>10^21\<close> (JavaScript prints the shortest decimal that reads
  back as the same double, which the rational model does not determine).
\<close>

record host =
  callFunction :: "string \<Rightarrow> val list \<Rightarrow> error + val"
  callMethod :: "val \<Rightarrow> string \<Rightarrow> val list \<Rightarrow> error + val"
  localeCompare :: "string \<Rightarrow> string \<Rightarrow> rat"
  formatNumber :: "rat \<Rightarrow> string"

text \<open>The variables of an interpreter: the own properties of the object it holds.\<close>

type_synonym env = "string \<rightharpoonup> val"

section \<open>Conversion to string\<close>

fun showNat :: "nat \<Rightarrow> string" where
  "showNat n =
     (if n < 10 then [''0123456789'' ! n]
      else showNat (n div 10) @ [''0123456789'' ! (n mod 10)])"

declare showNat.simps [simp del]

definition showInt :: "int \<Rightarrow> string" where
  "showInt i = (if i < 0 then CHR ''-'' # showNat (nat (- i)) else showNat (nat i))"

definition numberToString :: "host \<Rightarrow> rat \<Rightarrow> string" where
  "numberToString h r =
     (if isInteger r \<and> \<bar>r\<bar> < 10 ^ 21 then showInt \<lfloor>r\<rfloor> else formatNumber h r)"

text \<open>
  \<open>String(v)\<close>, which is also how a value becomes a property key and how a template
  literal prints it. An array prints its elements joined by commas, \<open>null\<close> elements as
  the empty string; an object prints as \<open>[object Object]\<close>.
\<close>

fun jsString :: "host \<Rightarrow> val \<Rightarrow> string"
  and joinElems :: "host \<Rightarrow> val list \<Rightarrow> string"
where
  "jsString h VNull = ''null''"
| "jsString h (VBool b) = (if b then ''true'' else ''false'')"
| "jsString h (VNum n) = numberToString h n"
| "jsString h (VStr s) = s"
| "jsString h (VList xs) = joinElems h xs"
| "jsString h (VMap m) = ''[object Object]''"
| "joinElems h [] = []"
| "joinElems h [x] = (if x = VNull then [] else jsString h x)"
| "joinElems h (x # y # xs) =
     (if x = VNull then [] else jsString h x) @ '','' @ joinElems h (y # xs)"

text \<open>The own properties of an array: its indices and \<open>length\<close>.\<close>

definition listProps :: "val list \<Rightarrow> (string \<times> val) list" where
  "listProps xs = zip (map showNat [0 ..< length xs]) xs @ [(''length'', VNum (of_nat (length xs)))]"

section \<open>Interpreter\<close>

subsection \<open>Operators on evaluated operands\<close>

definition visitUnaryOp :: "unaryOp \<Rightarrow> val \<Rightarrow> error + val" where
  "visitUnaryOp op operand =
     (case op of
        NOT \<Rightarrow>
          (case operand of
             VBool b \<Rightarrow> Inr (VBool (\<not> b))
           | _ \<Rightarrow> Inl (EvaluationError ''NOT operator requires boolean operand''))
      | NEGATE \<Rightarrow>
          (case operand of
             VNum n \<Rightarrow> Inr (VNum (- n))
           | _ \<Rightarrow> Inl (EvaluationError ''Negation requires numeric operand'')))"

fun isString :: "val \<Rightarrow> bool" where
  "isString (VStr s) = True"
| "isString v = False"

fun opAdd :: "host \<Rightarrow> val \<Rightarrow> val \<Rightarrow> error + val" where
  "opAdd h left right =
     (if isString left \<or> isString right then Inr (VStr (jsString h left @ jsString h right))
      else case (left, right) of
        (VList xs, VList ys) \<Rightarrow> Inr (VList (xs @ ys))
      | (VNum x, VNum y) \<Rightarrow> Inr (VNum (x + y))
      | _ \<Rightarrow> Inl (EvaluationError ''Invalid operands for addition''))"

fun opSubtract :: "val \<Rightarrow> val \<Rightarrow> error + val" where
  "opSubtract (VNum x) (VNum y) = Inr (VNum (x - y))"
| "opSubtract left right = Inl (EvaluationError ''Subtraction requires numeric operands'')"

text \<open>
  \<open>String.prototype.repeat\<close> truncates its count and throws a \<open>RangeError\<close> on a
  negative one; the array loop \<open>for (i = 0; i < right; i++)\<close> runs \<open>\<lceil>right\<rceil>\<close> times
  for a positive \<open>right\<close>.
\<close>

fun opMultiply :: "val \<Rightarrow> val \<Rightarrow> error + val" where
  "opMultiply (VNum x) (VNum y) = Inr (VNum (x * y))"
| "opMultiply (VStr s) (VNum y) =
     (if trunc y < 0 then Inl (RangeError ''Invalid count value'')
      else Inr (VStr (concat (replicate (nat (trunc y)) s))))"
| "opMultiply (VList xs) (VNum y) = Inr (VList (concat (replicate (nat \<lceil>y\<rceil>) xs)))"
| "opMultiply left right = Inl (EvaluationError ''Invalid operands for multiplication'')"

fun opDivide :: "val \<Rightarrow> val \<Rightarrow> error + val" where
  "opDivide (VNum x) (VNum y) =
     (if y = 0 then Inl (EvaluationError ''Division by zero'') else Inr (VNum (x / y)))"
| "opDivide left right = Inl (EvaluationError ''Division requires numeric operands'')"

text \<open>The remainder of JavaScript takes the sign of the dividend.\<close>

fun opModulo :: "val \<Rightarrow> val \<Rightarrow> error + val" where
  "opModulo (VNum x) (VNum y) =
     (if y = 0 then Inl (EvaluationError ''Modulo by zero'')
      else Inr (VNum (x - y * of_int (trunc (x / y)))))"
| "opModulo left right = Inl (EvaluationError ''Modulo requires integer operands'')"

fun opIn :: "host \<Rightarrow> val \<Rightarrow> val \<Rightarrow> error + val" where
  "opIn h left (VList array) = Inr (VBool (containsInArray array left))"
| "opIn h left (VMap m) = Inr (VBool (map_of m (jsString h left) \<noteq> None))"
| "opIn h (VStr l) (VStr r) = Inr (VBool (sublist l r))"
| "opIn h left right =
     Inl (EvaluationError ''IN operator requires list, map, or string on right side'')"

definition opCompare :: "host \<Rightarrow> (rat \<Rightarrow> bool) \<Rightarrow> val \<Rightarrow> val \<Rightarrow> error + val" where
  "opCompare h test left right =
     (case compare (localeCompare h) left right of
        Inl e \<Rightarrow> Inl e
      | Inr cmp \<Rightarrow> Inr (VBool (test cmp)))"

text \<open>
  The \<open>switch\<close> of \<open>visitBinary\<close>, on the two evaluated operands. The logical operators
  never reach it (they return before the operands are both evaluated); the
  \<open>default\<close> branch stands for them.
\<close>

definition visitBinaryOp :: "host \<Rightarrow> binaryOp \<Rightarrow> val \<Rightarrow> val \<Rightarrow> error + val" where
  "visitBinaryOp h op left right =
     (case op of
        ADD \<Rightarrow> opAdd h left right
      | SUBTRACT \<Rightarrow> opSubtract left right
      | MULTIPLY \<Rightarrow> opMultiply left right
      | DIVIDE \<Rightarrow> opDivide left right
      | MODULO \<Rightarrow> opModulo left right
      | EQUAL \<Rightarrow> Inr (VBool (deepEquals left right))
      | NOT_EQUAL \<Rightarrow> Inr (VBool (\<not> deepEquals left right))
      | LESS \<Rightarrow> opCompare h (\<lambda>c. c < 0) left right
      | LESS_EQUAL \<Rightarrow> opCompare h (\<lambda>c. c \<le> 0) left right
      | GREATER \<Rightarrow> opCompare h (\<lambda>c. c > 0) left right
      | GREATER_EQUAL \<Rightarrow> opCompare h (\<lambda>c. c \<ge> 0) left right
      | IN \<Rightarrow> opIn h left right
      | _ \<Rightarrow> Inl (EvaluationError ''Unknown binary operator''))"

subsection \<open>Selection and indexing on evaluated operands\<close>

definition selectProps :: "string \<Rightarrow> bool \<Rightarrow> (string \<rightharpoonup> val) \<Rightarrow> error + val" where
  "selectProps field isTest target =
     (if isTest then Inr (VBool (target field \<noteq> None))
      else case target field of
        None \<Rightarrow> Inl (EvaluationError (''Field '' @ field @ '' not found''))
      | Some v \<Rightarrow> Inr v)"

fun selectField :: "string \<Rightarrow> bool \<Rightarrow> val \<Rightarrow> error + val" where
  "selectField field isTest VNull =
     (if isTest then Inr (VBool False)
      else Inl (EvaluationError (''Cannot select field '' @ field @ '' from null'')))"
| "selectField field isTest (VMap m) = selectProps field isTest (map_of m)"
| "selectField field isTest (VList xs) = selectProps field isTest (map_of (listProps xs))"
| "selectField field isTest target =
     Inl (EvaluationError ''Cannot select field from non-object type'')"

fun visitIndexOp :: "host \<Rightarrow> val \<Rightarrow> val \<Rightarrow> error + val" where
  "visitIndexOp h VNull index = Inl (EvaluationError ''Cannot index null value'')"
| "visitIndexOp h (VList xs) index =
     (case index of
        VNum n \<Rightarrow>
          (let idx = trunc n in
           if idx < 0 \<or> idx \<ge> int (length xs)
           then Inl (EvaluationError (''List index out of bounds: '' @ numberToString h (of_int idx)))
           else Inr (xs ! nat idx))
      | _ \<Rightarrow> Inl (EvaluationError ''List index must be an integer''))"
| "visitIndexOp h (VMap m) index =
     (case map_of m (jsString h index) of
        None \<Rightarrow> Inl (EvaluationError (''Map key not found: '' @ jsString h index))
      | Some v \<Rightarrow> Inr v)"
| "visitIndexOp h (VStr s) index =
     (case index of
        VNum n \<Rightarrow>
          (let idx = trunc n in
           if idx < 0 \<or> idx \<ge> int (length s)
           then Inl (EvaluationError (''String index out of bounds: '' @ numberToString h (of_int idx)))
           else Inr (VStr [s ! nat idx]))
      | _ \<Rightarrow> Inl (EvaluationError ''String index must be an integer''))"
| "visitIndexOp h operand index =
     Inl (EvaluationError (''Cannot index type: '' @ jsTypeof operand))"

subsection \<open>Loops of the interpreter\<close>

text \<open>
  The interpreter mutates its variables while it evaluates, so evaluation takes the
  variables and returns them with the result; a raised error is the result \<open>Inl\<close>,
  and the variables are what the \<open>finally\<close> blocks left. In the loops below \<open>ev\<close>
  stands for \<open>this.evaluate\<close>.
\<close>

type_synonym 'a eval = "env \<Rightarrow> (error + 'a) \<times> env"

text \<open>Evaluating the elements of a list literal, or the arguments of a call, in order.\<close>

fun evaluateAll :: "(expr \<Rightarrow> val eval) \<Rightarrow> expr list \<Rightarrow> val list eval" where
  "evaluateAll ev [] env = (Inr [], env)"
| "evaluateAll ev (element # elements) env =
     (case ev element env of
        (Inl e, env1) \<Rightarrow> (Inl e, env1)
      | (Inr v, env1) \<Rightarrow>
          (case evaluateAll ev elements env1 of
             (Inl e, env2) \<Rightarrow> (Inl e, env2)
           | (Inr vs, env2) \<Rightarrow> (Inr (v # vs), env2)))"

text \<open>The loop of \<open>visitMap\<close>: \<open>map[key] = value\<close> turns the key into a string.\<close>

fun visitMapEntries ::
  "host \<Rightarrow> (expr \<Rightarrow> val eval) \<Rightarrow> (expr \<times> expr) list \<Rightarrow> (string \<times> val) list \<Rightarrow> val eval"
where
  "visitMapEntries h ev [] m env = (Inr (VMap m), env)"
| "visitMapEntries h ev (entry # entries) m env =
     (case ev (fst entry) env of
        (Inl e, env1) \<Rightarrow> (Inl e, env1)
      | (Inr key, env1) \<Rightarrow>
          (case ev (snd entry) env1 of
             (Inl e, env2) \<Rightarrow> (Inl e, env2)
           | (Inr v, env2) \<Rightarrow>
               visitMapEntries h ev entries (AList.update (jsString h key) v m) env2))"

fun visitStructFields ::
  "(expr \<Rightarrow> val eval) \<Rightarrow> (string \<times> expr) list \<Rightarrow> (string \<times> val) list \<Rightarrow> val eval"
where
  "visitStructFields ev [] m env = (Inr (VMap m), env)"
| "visitStructFields ev (field # fieldInits) m env =
     (case ev (snd field) env of
        (Inl e, env1) \<Rightarrow> (Inl e, env1)
      | (Inr v, env1) \<Rightarrow> visitStructFields ev fieldInits (AList.update (fst field) v m) env1)"

text \<open>
  The five loops of \<open>evaluateMacro\<close>. Here \<open>ev\<close> stands for \<open>this.evaluate(expr)\<close>,
  the evaluation of the macro's second argument.
\<close>

fun macroMap :: "val eval \<Rightarrow> string \<Rightarrow> val list \<Rightarrow> val list \<Rightarrow> val eval" where
  "macroMap ev variableName [] results env = (Inr (VList results), env)"
| "macroMap ev variableName (item # target) results env =
     (case ev (env(variableName \<mapsto> item)) of
        (Inl e, env1) \<Rightarrow> (Inl e, env1)
      | (Inr v, env1) \<Rightarrow> macroMap ev variableName target (results @ [v]) env1)"

fun macroFilter :: "val eval \<Rightarrow> string \<Rightarrow> val list \<Rightarrow> val list \<Rightarrow> val eval" where
  "macroFilter ev variableName [] results env = (Inr (VList results), env)"
| "macroFilter ev variableName (item # target) results env =
     (case ev (env(variableName \<mapsto> item)) of
        (Inl e, env1) \<Rightarrow> (Inl e, env1)
      | (Inr condition, env1) \<Rightarrow>
          macroFilter ev variableName target
            (if condition = VBool True then results @ [item] else results) env1)"

fun macroAll :: "val eval \<Rightarrow> string \<Rightarrow> val list \<Rightarrow> val eval" where
  "macroAll ev variableName [] env = (Inr (VBool True), env)"
| "macroAll ev variableName (item # target) env =
     (case ev (env(variableName \<mapsto> item)) of
        (Inl e, env1) \<Rightarrow> (Inl e, env1)
      | (Inr condition, env1) \<Rightarrow>
          if condition \<noteq> VBool True then (Inr (VBool False), env1)
          else macroAll ev variableName target env1)"

fun macroExists :: "val eval \<Rightarrow> string \<Rightarrow> val list \<Rightarrow> val eval" where
  "macroExists ev variableName [] env = (Inr (VBool False), env)"
| "macroExists ev variableName (item # target) env =
     (case ev (env(variableName \<mapsto> item)) of
        (Inl e, env1) \<Rightarrow> (Inl e, env1)
      | (Inr condition, env1) \<Rightarrow>
          if condition = VBool True then (Inr (VBool True), env1)
          else macroExists ev variableName target env1)"

fun macroExistsOne :: "val eval \<Rightarrow> string \<Rightarrow> val list \<Rightarrow> nat \<Rightarrow> val eval" where
  "macroExistsOne ev variableName [] count env = (Inr (VBool (count = 1)), env)"
| "macroExistsOne ev variableName (item # target) count env =
     (case ev (env(variableName \<mapsto> item)) of
        (Inl e, env1) \<Rightarrow> (Inl e, env1)
      | (Inr condition, env1) \<Rightarrow>
          if condition = VBool True then
            (if count + 1 > 1 then (Inr (VBool False), env1)
             else macroExistsOne ev variableName target (count + 1) env1)
          else macroExistsOne ev variableName target count env1)"

text \<open>
  The \<open>finally\<close> blocks: the saved binding is \<open>None\<close> when the variable had none
  (\<open>had\<close> is false), and then the variable is deleted.
\<close>

definition restore :: "string \<Rightarrow> val option \<Rightarrow> env \<Rightarrow> env" where
  "restore variableName saved env =
     (case saved of
        Some v \<Rightarrow> env(variableName \<mapsto> v)
      | None \<Rightarrow> env(variableName := None))"

definition evaluateMacro :: "val eval \<Rightarrow> val \<Rightarrow> string \<Rightarrow> string \<Rightarrow> val eval" where
  "evaluateMacro ev target functionName variableName env =
     (case target of
        VList items \<Rightarrow>
          (let saved = env variableName;
               (result, env1) =
                 (if functionName = ''map'' then macroMap ev variableName items [] env
                  else if functionName = ''filter'' then macroFilter ev variableName items [] env
                  else if functionName = ''all'' then macroAll ev variableName items env
                  else if functionName = ''exists'' then macroExists ev variableName items env
                  else if functionName = ''existsOne'' then macroExistsOne ev variableName items 0 env
                  else (Inl (EvaluationError (''Unknown macro function: '' @ functionName)), env))
           in (result, restore variableName saved env1))
      | _ \<Rightarrow>
          (Inl (EvaluationError (''Macro '' @ functionName @ '' requires a list target'')), env))"

text \<open>The loop and the \<open>try\<close> block of \<open>visitComprehension\<close>.\<close>

fun comprehensionLoop :: "val eval \<Rightarrow> val eval \<Rightarrow> string \<Rightarrow> string \<Rightarrow> val list \<Rightarrow> unit eval" where
  "comprehensionLoop evCondition evStep variable accumulator [] env = (Inr (), env)"
| "comprehensionLoop evCondition evStep variable accumulator (item # items) env =
     (case evCondition (env(variable \<mapsto> item)) of
        (Inl e, env1) \<Rightarrow> (Inl e, env1)
      | (Inr condition, env1) \<Rightarrow>
          if condition \<noteq> VBool True
          then comprehensionLoop evCondition evStep variable accumulator items env1
          else
            (case evStep env1 of
               (Inl e, env2) \<Rightarrow> (Inl e, env2)
             | (Inr acc, env2) \<Rightarrow>
                 comprehensionLoop evCondition evStep variable accumulator items
                   (env2(accumulator \<mapsto> acc))))"

definition comprehensionTry ::
  "val eval \<Rightarrow> val eval \<Rightarrow> val eval \<Rightarrow> val eval \<Rightarrow> string \<Rightarrow> string \<Rightarrow> val list \<Rightarrow> val eval"
where
  "comprehensionTry evInitializer evCondition evStep evResult variable accumulator items env =
     (case evInitializer env of
        (Inl e, env1) \<Rightarrow> (Inl e, env1)
      | (Inr acc, env1) \<Rightarrow>
          (case comprehensionLoop evCondition evStep variable accumulator items
                  (env1(accumulator \<mapsto> acc)) of
             (Inl e, env2) \<Rightarrow> (Inl e, env2)
           | (Inr u, env2) \<Rightarrow> evResult env2))"

lemma evaluateAll_cong [fundef_cong]:
  "xs = ys \<Longrightarrow> env = env' \<Longrightarrow> (\<And>x e. x \<in> set ys \<Longrightarrow> f x e = g x e) \<Longrightarrow>
     evaluateAll f xs env = evaluateAll g ys env'"
  by (induction ys arbitrary: xs env env') (auto split: prod.splits sum.splits)

lemma visitMapEntries_cong [fundef_cong]:
  "xs = ys \<Longrightarrow> m = m' \<Longrightarrow> env = env' \<Longrightarrow>
   (\<And>x e. x \<in> set ys \<Longrightarrow> f (fst x) e = g (fst x) e) \<Longrightarrow>
   (\<And>x e. x \<in> set ys \<Longrightarrow> f (snd x) e = g (snd x) e) \<Longrightarrow>
     visitMapEntries h f xs m env = visitMapEntries h g ys m' env'"
  by (induction ys arbitrary: xs m m' env env') (auto split: prod.splits sum.splits)

lemma visitStructFields_cong [fundef_cong]:
  "xs = ys \<Longrightarrow> m = m' \<Longrightarrow> env = env' \<Longrightarrow>
   (\<And>x e. x \<in> set ys \<Longrightarrow> f (snd x) e = g (snd x) e) \<Longrightarrow>
     visitStructFields f xs m env = visitStructFields g ys m' env'"
  by (induction ys arbitrary: xs m m' env env') (auto split: prod.splits sum.splits)

lemma evaluateMacro_cong [fundef_cong]:
  "(\<And>e. f e = g e) \<Longrightarrow> evaluateMacro f t n v env = evaluateMacro g t n v env"
proof -
  assume "\<And>e. f e = g e"
  then have "f = g" by (simp add: fun_eq_iff)
  then show ?thesis by simp
qed

lemma comprehensionTry_cong [fundef_cong]:
  "(\<And>e. f1 e = g1 e) \<Longrightarrow> (\<And>e. f2 e = g2 e) \<Longrightarrow> (\<And>e. f3 e = g3 e) \<Longrightarrow>
   (\<And>e. f4 e = g4 e) \<Longrightarrow>
     comprehensionTry f1 f2 f3 f4 v a r env = comprehensionTry g1 g2 g3 g4 v a r env"
proof -
  assume "\<And>e. f1 e = g1 e" "\<And>e. f2 e = g2 e" "\<And>e. f3 e = g3 e" "\<And>e. f4 e = g4 e"
  then have "f1 = g1" "f2 = g2" "f3 = g3" "f4 = g4" by (simp_all add: fun_eq_iff)
  then show ?thesis by simp
qed

subsection \<open>Evaluation\<close>

fun evaluate :: "host \<Rightarrow> expr \<Rightarrow> val eval" where
  "evaluate h (Literal v t) env = (Inr v, env)"
| "evaluate h (Identifier name) env =
     (case env name of
        None \<Rightarrow> (Inl (EvaluationError (''Undefined variable: '' @ name)), env)
      | Some v \<Rightarrow> (Inr v, env))"
| "evaluate h (Select operand field isTest) env =
     (case operand of
        None \<Rightarrow> (selectProps field isTest env, env)
      | Some e \<Rightarrow>
          (case evaluate h e env of
             (Inl err, env1) \<Rightarrow> (Inl err, env1)
           | (Inr target, env1) \<Rightarrow> (selectField field isTest target, env1)))"
| "evaluate h (Index operandExpr indexExpr) env =
     (case evaluate h operandExpr env of
        (Inl err, env1) \<Rightarrow> (Inl err, env1)
      | (Inr operand, env1) \<Rightarrow>
          (case evaluate h indexExpr env1 of
             (Inl err, env2) \<Rightarrow> (Inl err, env2)
           | (Inr index, env2) \<Rightarrow> (visitIndexOp h operand index, env2)))"
| "evaluate h (Call targetExpr functionName args isMacro) env =
     (case (isMacro, targetExpr) of
        (True, Some t) \<Rightarrow>
          (case evaluate h t env of
             (Inl err, env1) \<Rightarrow> (Inl err, env1)
           | (Inr target, env1) \<Rightarrow>
               (case args of
                  [] \<Rightarrow>
                    (Inl (EvaluationError (''Macro '' @ functionName @ '' requires arguments'')), env1)
                | firstArg # rest \<Rightarrow>
                    (case firstArg of
                       Identifier variableName \<Rightarrow>
                         (case rest of
                            [] \<Rightarrow>
                              (Inl (EvaluationError
                                 (''Macro '' @ functionName @ '' requires an expression argument'')),
                               env1)
                          | macroExpr # others \<Rightarrow>
                              evaluateMacro (evaluate h macroExpr) target functionName variableName env1)
                     | _ \<Rightarrow>
                         (Inl (EvaluationError
                            (''First argument to macro '' @ functionName @ '' must be a variable name'')),
                          env1))))
      | _ \<Rightarrow>
          (case evaluateAll (evaluate h) args env of
             (Inl err, env1) \<Rightarrow> (Inl err, env1)
           | (Inr vs, env1) \<Rightarrow>
               (case targetExpr of
                  Some t \<Rightarrow>
                    (case evaluate h t env1 of
                       (Inl err, env2) \<Rightarrow> (Inl err, env2)
                     | (Inr target, env2) \<Rightarrow> (callMethod h target functionName vs, env2))
                | None \<Rightarrow> (callFunction h functionName vs, env1))))"
| "evaluate h (ListExpression elements) env =
     (case evaluateAll (evaluate h) elements env of
        (Inl err, env1) \<Rightarrow> (Inl err, env1)
      | (Inr vs, env1) \<Rightarrow> (Inr (VList vs), env1))"
| "evaluate h (MapExpression entries) env = visitMapEntries h (evaluate h) entries [] env"
| "evaluate h (Struct typeName fieldInits) env = visitStructFields (evaluate h) fieldInits [] env"
| "evaluate h (Comprehension variable rangeExpr accumulator initializer condition step result) env =
     (case evaluate h rangeExpr env of
        (Inl err, env1) \<Rightarrow> (Inl err, env1)
      | (Inr (VList items), env1) \<Rightarrow>
          (let iteratorSaved = env1 variable;
               accumulatorSaved = env1 accumulator;
               (r, env2) =
                 comprehensionTry (evaluate h initializer) (evaluate h condition) (evaluate h step)
                   (evaluate h result) variable accumulator items env1
           in (r, restore accumulator accumulatorSaved (restore variable iteratorSaved env2)))
      | (Inr other, env1) \<Rightarrow>
          (Inl (EvaluationError ''Comprehension range must be a list''), env1))"
| "evaluate h (Unary op operandExpr) env =
     (case evaluate h operandExpr env of
        (Inl err, env1) \<Rightarrow> (Inl err, env1)
      | (Inr operand, env1) \<Rightarrow> (visitUnaryOp op operand, env1))"
| "evaluate h (Binary op leftExpr rightExpr) env =
     (if op = LOGICAL_AND then
        (case evaluate h leftExpr env of
           (Inl err, env1) \<Rightarrow> (Inl err, env1)
         | (Inr left, env1) \<Rightarrow>
             if left \<noteq> VBool True then (Inr (VBool False), env1)
             else
               (case evaluate h rightExpr env1 of
                  (Inl err, env2) \<Rightarrow> (Inl err, env2)
                | (Inr right, env2) \<Rightarrow> (Inr (VBool (right = VBool True)), env2)))
      else if op = LOGICAL_OR then
        (case evaluate h leftExpr env of
           (Inl err, env1) \<Rightarrow> (Inl err, env1)
         | (Inr left, env1) \<Rightarrow>
             if left = VBool True then (Inr (VBool True), env1)
             else
               (case evaluate h rightExpr env1 of
                  (Inl err, env2) \<Rightarrow> (Inl err, env2)
                | (Inr right, env2) \<Rightarrow> (Inr (VBool (right = VBool True)), env2)))
      else
        (case evaluate h leftExpr env of
           (Inl err, env1) \<Rightarrow> (Inl err, env1)
         | (Inr left, env1) \<Rightarrow>
             (case evaluate h rightExpr env1 of
                (Inl err, env2) \<Rightarrow> (Inl err, env2)
              | (Inr right, env2) \<Rightarrow> (visitBinaryOp h op left right, env2))))"
| "evaluate h (Conditional condition thenExpr otherwiseExpr) env =
     (case evaluate h condition env of
        (Inl err, env1) \<Rightarrow> (Inl err, env1)
      | (Inr c, env1) \<Rightarrow>
          if c = VBool True then evaluate h thenExpr env1 else evaluate h otherwiseExpr env1)"

subsection \<open>A host for the examples\<close>

text \<open>
  A host whose registry knows no function, that orders strings by code unit and prints
  every number it is asked to format as \<open>NaN\<close>.
\<close>

fun codeUnitCompare :: "string \<Rightarrow> string \<Rightarrow> rat" where
  "codeUnitCompare [] [] = 0"
| "codeUnitCompare [] (y # ys) = - 1"
| "codeUnitCompare (x # xs) [] = 1"
| "codeUnitCompare (x # xs) (y # ys) =
     (if (of_char x :: nat) < of_char y then - 1
      else if (of_char y :: nat) < of_char x then 1
      else codeUnitCompare xs ys)"

definition exampleHost :: host where
  "exampleHost =
     \<lparr> callFunction = (\<lambda>name args. Inl (Error (''Unknown function: '' @ name))),
       callMethod = (\<lambda>target name args. Inl (Error (''Unknown method: '' @ name))),
       localeCompare = codeUnitCompare,
       formatNumber = (\<lambda>r. ''NaN'') \<rparr>"

section \<open>Program\<close>






section \<open>Notions for stating the properties of map literals\<close>




section \<open>Lexer\<close>

text \<open>
  The characters of the input are modelled as 8-bit characters; the lexer only ever
  tests for ASCII characters. \<open>TK_\<close> is prefixed to the names of the token types,
  several of which are also names of operators or literal types.
\<close>

datatype tokenType =
    TK_NULL | TK_TRUE | TK_FALSE | TK_INT | TK_UINT | TK_DOUBLE | TK_STRING | TK_BYTES
  | TK_IDENTIFIER
  | TK_PLUS | TK_MINUS | TK_STAR | TK_SLASH | TK_PERCENT
  | TK_EQ | TK_NE | TK_LT | TK_LE | TK_GT | TK_GE
  | TK_LOGICAL_AND | TK_LOGICAL_OR | TK_BANG | TK_IN
  | TK_LPAREN | TK_RPAREN | TK_LBRACKET | TK_RBRACKET | TK_LBRACE | TK_RBRACE
  | TK_DOT | TK_COMMA | TK_COLON | TK_QUESTION
  | TK_EOF

datatype token = Token (tokType: tokenType) (tokValue: string) (tokLine: nat) (tokColumn: nat)

record lexer =
  input :: string
  position :: nat
  line :: nat
  column :: nat
  lookahead :: "token list"

definition newLexer :: "string \<Rightarrow> lexer" where
  "newLexer s = \<lparr> input = s, position = 0, line = 1, column = 1, lookahead = [] \<rparr>"

text \<open>\<open>this.input[i]\<close>, which is \<open>undefined\<close> past the end.\<close>

definition charAt :: "lexer \<Rightarrow> nat \<Rightarrow> char option" where
  "charAt lx i = (if i < length (input lx) then Some (input lx ! i) else None)"

text \<open>\<open>this.input.substring(from, to)\<close>, for \<open>from \<le> to\<close>.\<close>

definition substring :: "string \<Rightarrow> nat \<Rightarrow> nat \<Rightarrow> string" where
  "substring s from to = take (to - from) (drop from s)"

definition step :: "lexer \<Rightarrow> lexer" where
  "step lx =
     (if position lx \<ge> length (input lx) then lx
      else
        let ch = input lx ! position lx;
            lx1 = lx\<lparr>position := position lx + 1\<rparr>
        in if ch = CHR 0x0D then
             (let lx2 = (if position lx1 < length (input lx1) \<and> input lx1 ! position lx1 = CHR 0x0A
                         then lx1\<lparr>position := position lx1 + 1\<rparr> else lx1)
              in lx2\<lparr>line := line lx2 + 1, column := 1\<rparr>)
           else if ch = CHR 0x0A then lx1\<lparr>line := line lx1 + 1, column := 1\<rparr>
           else lx1\<lparr>column := column lx1 + 1\<rparr>)"

definition forward :: "nat \<Rightarrow> lexer \<Rightarrow> lexer" where
  "forward n lx = (step ^^ n) lx"

lemma position_step: "position lx < length (input lx) \<Longrightarrow> position lx < position (step lx)"
  by (simp add: step_def Let_def)

lemma input_step [simp]: "input (step lx) = input lx"
  by (simp add: step_def Let_def)

text \<open>
  The loops \<open>while (position < input.length && p(input[position])) step()\<close>, which
  skip whitespace, digits, hexadecimal digits and the characters of an identifier.
\<close>

function stepWhile :: "(char \<Rightarrow> bool) \<Rightarrow> lexer \<Rightarrow> lexer" where
  "stepWhile p lx =
     (if position lx < length (input lx) \<and> p (input lx ! position lx)
      then stepWhile p (step lx) else lx)"
  by pat_completeness auto
termination
  by (relation "measure (\<lambda>(p, lx). length (input lx) - position lx)")
     (auto simp: position_step diff_less_mono2)

declare stepWhile.simps [simp del]

lemma position_step_le: "position lx \<le> position (step lx)"
  by (simp add: step_def Let_def)

lemma position_forward2: "position lx < length (input lx) \<Longrightarrow> position lx < position (forward 2 lx)"
  using position_step [of lx] position_step_le [of "step lx"]
  by (simp add: forward_def numeral_2_eq_2)

lemma input_forward [simp]: "input (forward n lx) = input lx"
  by (induction n) (simp_all add: forward_def)

text \<open>The code of a character, on which \<open>c >= '0' && c <= '9'\<close> compares.\<close>

definition code :: "char \<Rightarrow> nat" where
  "code c = of_char c"

definition isHexDigit :: "char \<Rightarrow> bool" where
  "isHexDigit c =
     ((code CHR ''0'' \<le> code c \<and> code c \<le> code CHR ''9'') \<or>
      (code CHR ''a'' \<le> code c \<and> code c \<le> code CHR ''f'') \<or>
      (code CHR ''A'' \<le> code c \<and> code c \<le> code CHR ''F''))"

definition isDigit :: "char \<Rightarrow> bool" where
  "isDigit c = (code CHR ''0'' \<le> code c \<and> code c \<le> code CHR ''9'')"

definition isLetter :: "char \<Rightarrow> bool" where
  "isLetter c =
     ((code CHR ''a'' \<le> code c \<and> code c \<le> code CHR ''z'') \<or>
      (code CHR ''A'' \<le> code c \<and> code c \<le> code CHR ''Z''))"

definition isLetterOrDigit :: "char \<Rightarrow> bool" where
  "isLetterOrDigit c = (isLetter c \<or> isDigit c)"

definition whitespace :: "lexer \<Rightarrow> lexer" where
  "whitespace lx =
     stepWhile (\<lambda>c. \<not> (c \<noteq> CHR '' '' \<and> c \<noteq> CHR 0x09 \<and> c \<noteq> CHR 0x0A \<and> c \<noteq> CHR 0x0D)) lx"

definition peekChar :: "lexer \<Rightarrow> char" where
  "peekChar lx =
     (let pos = position lx + 1
      in if pos \<ge> length (input lx) then CHR 0x00 else input lx ! pos)"

text \<open>
  The loop of \<open>string\<close> for a plain or raw string, which is also the loop of
  \<open>bytes\<close> (there with the token type \<open>BYTES\<close>, its own message, and escapes always
  skipped). The quote is \<open>input[position]\<close> as it was read before the loop.
\<close>

function quotedLoop ::
  "tokenType \<Rightarrow> string \<Rightarrow> char option \<Rightarrow> bool \<Rightarrow> nat \<Rightarrow> nat \<Rightarrow> nat \<Rightarrow> lexer \<Rightarrow> error + token \<times> lexer"
where
  "quotedLoop ty msg quote isRaw line0 column0 offset lx =
     (if position lx < length (input lx) then
        (let ch = input lx ! position lx
         in if Some ch = quote then
              (let lx1 = step lx
               in Inr (Token ty (substring (input lx1) offset (position lx1)) line0 column0, lx1))
            else if ch = CHR 0x5C \<and> \<not> isRaw \<and> position lx + 1 < length (input lx)
            then quotedLoop ty msg quote isRaw line0 column0 offset (forward 2 lx)
            else quotedLoop ty msg quote isRaw line0 column0 offset (step lx))
      else Inl (ParseError msg line0 column0))"
  by pat_completeness auto
termination
  by (relation "measure (\<lambda>(ty, msg, quote, isRaw, line0, column0, offset, lx).
        length (input lx) - position lx)")
     (auto simp: position_step position_forward2 diff_less_mono2)

declare quotedLoop.simps [simp del]

function tripleLoop :: "char \<Rightarrow> nat \<Rightarrow> nat \<Rightarrow> nat \<Rightarrow> lexer \<Rightarrow> error + token \<times> lexer" where
  "tripleLoop quote line0 column0 offset lx =
     (if position lx + 2 < length (input lx) then
        (if input lx ! position lx = quote \<and> input lx ! (position lx + 1) = quote \<and>
            input lx ! (position lx + 2) = quote
         then
           (let lx1 = forward 3 lx
            in Inr (Token TK_STRING (substring (input lx1) offset (position lx1)) line0 column0, lx1))
         else tripleLoop quote line0 column0 offset (step lx))
      else Inl (ParseError ''Unterminated triple-quoted string'' line0 column0))"
  by pat_completeness auto
termination
  by (relation "measure (\<lambda>(quote, line0, column0, offset, lx). length (input lx) - position lx)")
     (auto simp: position_step diff_less_mono2)

declare tripleLoop.simps [simp del]

text \<open>\<open>string\<close>, \<open>bytes\<close>, \<open>number\<close> and \<open>identifier\<close> of the lexer.\<close>

definition scanString :: "nat \<Rightarrow> nat \<Rightarrow> nat \<Rightarrow> lexer \<Rightarrow> error + token \<times> lexer" where
  "scanString line0 column0 offset lx =
     (let isRaw = (charAt lx (position lx) = Some CHR ''r'' \<or> charAt lx (position lx) = Some CHR ''R'');
          lx1 = (if isRaw then step lx else lx)
      in if position lx1 + 2 < length (input lx1) \<and>
            (let prefix = substring (input lx1) (position lx1) (position lx1 + 3)
             in prefix = [CHR 0x22, CHR 0x22, CHR 0x22] \<or> prefix = [CHR 0x27, CHR 0x27, CHR 0x27])
         then tripleLoop (input lx1 ! position lx1) line0 column0 offset (forward 3 lx1)
         else quotedLoop TK_STRING ''Unterminated string'' (charAt lx1 (position lx1)) isRaw
                line0 column0 offset (step lx1))"

definition scanBytes :: "nat \<Rightarrow> nat \<Rightarrow> nat \<Rightarrow> lexer \<Rightarrow> error + token \<times> lexer" where
  "scanBytes line0 column0 offset lx =
     (let lx1 = step lx
      in quotedLoop TK_BYTES ''Unterminated bytes literal'' (charAt lx1 (position lx1)) False
           line0 column0 offset (step lx1))"

definition scanNumber :: "nat \<Rightarrow> nat \<Rightarrow> nat \<Rightarrow> lexer \<Rightarrow> token \<times> lexer" where
  "scanNumber line0 column0 offset lx =
     (if charAt lx (position lx) = Some CHR ''0'' \<and> position lx + 1 < length (input lx) \<and>
         (input lx ! (position lx + 1) = CHR ''x'' \<or> input lx ! (position lx + 1) = CHR ''X'')
      then
        (let lx1 = stepWhile isHexDigit (forward 2 lx)
         in if position lx1 < length (input lx1) \<and>
               (input lx1 ! position lx1 = CHR ''u'' \<or> input lx1 ! position lx1 = CHR ''U'')
            then
              (let lx2 = step lx1
               in (Token TK_UINT (substring (input lx2) offset (position lx2)) line0 column0, lx2))
            else (Token TK_INT (substring (input lx1) offset (position lx1)) line0 column0, lx1))
      else
        (let lx1 = stepWhile isDigit lx;
             hasPoint = (position lx1 < length (input lx1) \<and> input lx1 ! position lx1 = CHR ''.'');
             lx2 = (if hasPoint then stepWhile isDigit (step lx1) else lx1);
             hasExponent = (position lx2 < length (input lx2) \<and>
                (input lx2 ! position lx2 = CHR ''e'' \<or> input lx2 ! position lx2 = CHR ''E''));
             lx3 = (if hasExponent then
                      (let lx' = step lx2;
                           lx'' = (if position lx' < length (input lx') \<and>
                                      (input lx' ! position lx' = CHR ''+'' \<or>
                                       input lx' ! position lx' = CHR ''-'')
                                   then step lx' else lx')
                       in stepWhile isDigit lx'')
                    else lx2);
             isDouble = (hasPoint \<or> hasExponent)
         in if \<not> isDouble \<and> position lx3 < length (input lx3) \<and>
               (input lx3 ! position lx3 = CHR ''u'' \<or> input lx3 ! position lx3 = CHR ''U'')
            then
              (let lx4 = step lx3
               in (Token TK_UINT (substring (input lx4) offset (position lx4)) line0 column0, lx4))
            else
              (Token (if isDouble then TK_DOUBLE else TK_INT)
                 (substring (input lx3) offset (position lx3)) line0 column0, lx3)))"

definition tokenTypeOf :: "string \<Rightarrow> tokenType" where
  "tokenTypeOf v =
     (if v = ''null'' then TK_NULL
      else if v = ''true'' then TK_TRUE
      else if v = ''false'' then TK_FALSE
      else if v = ''in'' then TK_IN
      else TK_IDENTIFIER)"

definition scanIdentifier :: "nat \<Rightarrow> nat \<Rightarrow> nat \<Rightarrow> lexer \<Rightarrow> token \<times> lexer" where
  "scanIdentifier line0 column0 offset lx =
     (let lx1 = stepWhile (\<lambda>c. \<not> (\<not> isLetterOrDigit c \<and> c \<noteq> CHR ''_'')) lx;
          v = substring (input lx1) offset (position lx1)
      in (Token (tokenTypeOf v) v line0 column0, lx1))"

text \<open>The \<open>switch\<close> on the single character tokens.\<close>

definition singleCharToken :: "char \<Rightarrow> tokenType option" where
  "singleCharToken ch =
     (if ch = CHR ''('' then Some TK_LPAREN
      else if ch = CHR '')'' then Some TK_RPAREN
      else if ch = CHR ''['' then Some TK_LBRACKET
      else if ch = CHR '']'' then Some TK_RBRACKET
      else if ch = CHR ''{'' then Some TK_LBRACE
      else if ch = CHR ''}'' then Some TK_RBRACE
      else if ch = CHR '','' then Some TK_COMMA
      else if ch = CHR ''.'' then Some TK_DOT
      else if ch = CHR '':'' then Some TK_COLON
      else if ch = CHR ''?'' then Some TK_QUESTION
      else if ch = CHR ''+'' then Some TK_PLUS
      else if ch = CHR ''*'' then Some TK_STAR
      else if ch = CHR ''/'' then Some TK_SLASH
      else if ch = CHR ''%'' then Some TK_PERCENT
      else None)"

definition token :: "lexer \<Rightarrow> error + token \<times> lexer" where
  "token lx0 =
     (let lx = whitespace lx0
      in if position lx \<ge> length (input lx)
         then Inr (Token TK_EOF [] (line lx) (column lx), lx)
         else
           (let start = position lx; line0 = line lx; column0 = column lx;
                ch = input lx ! position lx
            in case singleCharToken ch of
                 Some ty \<Rightarrow> Inr (Token ty [ch] line0 column0, step lx)
               | None \<Rightarrow>
                   if ch = CHR ''&'' \<and> peekChar lx = CHR ''&''
                   then Inr (Token TK_LOGICAL_AND ''&&'' line0 column0, forward 2 lx)
                   else if ch = CHR ''|'' \<and> peekChar lx = CHR ''|''
                   then Inr (Token TK_LOGICAL_OR ''||'' line0 column0, forward 2 lx)
                   else if ch = CHR ''='' \<and> peekChar lx = CHR ''=''
                   then Inr (Token TK_EQ ''=='' line0 column0, forward 2 lx)
                   else if ch = CHR ''!'' \<and> peekChar lx = CHR ''=''
                   then Inr (Token TK_NE ''!='' line0 column0, forward 2 lx)
                   else if ch = CHR ''<'' \<and> peekChar lx = CHR ''=''
                   then Inr (Token TK_LE ''<='' line0 column0, forward 2 lx)
                   else if ch = CHR ''>'' \<and> peekChar lx = CHR ''=''
                   then Inr (Token TK_GE ''>='' line0 column0, forward 2 lx)
                   else if ch = CHR ''<'' then Inr (Token TK_LT ''<'' line0 column0, step lx)
                   else if ch = CHR ''>'' then Inr (Token TK_GT ''>'' line0 column0, step lx)
                   else if ch = CHR ''!'' then Inr (Token TK_BANG ''!'' line0 column0, step lx)
                   else if ch = CHR ''-'' then Inr (Token TK_MINUS ''-'' line0 column0, step lx)
                   else if ch = CHR 0x22 \<or> ch = CHR 0x27 then scanString line0 column0 start lx
                   else if (ch = CHR ''r'' \<or> ch = CHR ''R'') \<and> position lx + 1 < length (input lx) \<and>
                           (input lx ! (position lx + 1) = CHR 0x22 \<or>
                            input lx ! (position lx + 1) = CHR 0x27)
                   then scanString line0 column0 start lx
                   else if (ch = CHR ''b'' \<or> ch = CHR ''B'') \<and> position lx + 1 < length (input lx) \<and>
                           (input lx ! (position lx + 1) = CHR 0x22 \<or>
                            input lx ! (position lx + 1) = CHR 0x27)
                   then scanBytes line0 column0 start lx
                   else if isDigit ch then Inr (scanNumber line0 column0 start lx)
                   else if isLetter ch \<or> ch = CHR ''_'' then Inr (scanIdentifier line0 column0 start lx)
                   else Inl (ParseError (''Unexpected character: '' @ [ch]) line0 column0)))"

text \<open>
  \<open>next\<close> and \<open>peek\<close>. The loop of \<open>peek\<close> pushes one token for each one that the
  buffer lacks.
\<close>

definition nextToken :: "lexer \<Rightarrow> error + token \<times> lexer" where
  "nextToken lx =
     (case lookahead lx of
        t # ts \<Rightarrow> Inr (t, lx\<lparr>lookahead := ts\<rparr>)
      | [] \<Rightarrow> token lx)"

primrec fill :: "nat \<Rightarrow> lexer \<Rightarrow> error + lexer" where
  "fill 0 lx = Inr lx"
| "fill (Suc k) lx =
     (case token lx of
        Inl e \<Rightarrow> Inl e
      | Inr (t, lx1) \<Rightarrow> fill k (lx1\<lparr>lookahead := lookahead lx1 @ [t]\<rparr>))"

definition peek :: "nat \<Rightarrow> lexer \<Rightarrow> error + token \<times> lexer" where
  "peek count lx =
     (case fill (count - length (lookahead lx)) lx of
        Inl e \<Rightarrow> Inl e
      | Inr lx1 \<Rightarrow> Inr (lookahead lx1 ! (count - 1), lx1))"

text \<open>The tokens that the first \<open>n\<close> calls of \<open>token\<close> return, up to a raised error.\<close>

primrec scan :: "nat \<Rightarrow> lexer \<Rightarrow> token list" where
  "scan 0 lx = []"
| "scan (Suc n) lx =
     (case token lx of
        Inl e \<Rightarrow> []
      | Inr (t, lx1) \<Rightarrow> t # scan n lx1)"

subsection \<open>Positions of the lexer and of tokens\<close>

definition posLe :: "nat \<times> nat \<Rightarrow> nat \<times> nat \<Rightarrow> bool" where
  "posLe p q = (fst p < fst q \<or> (fst p = fst q \<and> snd p \<le> snd q))"

definition lexPos :: "lexer \<Rightarrow> nat \<times> nat" where
  "lexPos lx = (line lx, column lx)"

definition tokPos :: "token \<Rightarrow> nat \<times> nat" where
  "tokPos t = (tokLine t, tokColumn t)"

definition oneBased :: "nat \<times> nat \<Rightarrow> bool" where
  "oneBased p = (1 \<le> fst p \<and> 1 \<le> snd p)"

definition advanced :: "lexer \<Rightarrow> lexer \<Rightarrow> bool" where
  "advanced lx lx' =
     (input lx' = input lx \<and> lookahead lx' = lookahead lx \<and> posLe (lexPos lx) (lexPos lx') \<and>
      (oneBased (lexPos lx) \<longrightarrow> oneBased (lexPos lx')))"


definition threeLines :: string where
  "threeLines = [CHR ''a'', CHR 0x0D, CHR 0x0A, CHR ''b'', CHR 0x0A, CHR ''c'']"



section \<open>The parser\<close>

text \<open>
  What the parser takes from the JavaScript runtime: \<open>parseInt\<close> with a radix,
  \<open>parseFloat\<close>, \<open>String.fromCharCode\<close> and \<open>String.fromCodePoint\<close> (which raises a
  \<open>RangeError\<close> on an invalid code point). Numbers are rationals, as for the
  interpreter.
\<close>

record builtins =
  parseInt :: "string \<Rightarrow> nat \<Rightarrow> rat"
  parseFloat :: "string \<Rightarrow> rat"
  fromCharCode :: "rat \<Rightarrow> string"
  fromCodePoint :: "rat \<Rightarrow> error + string"

text \<open>
  The state of a \<open>Parser\<close>: its lexer and the current token. A parsing method returns
  a value and the new state, or raises; \<open>None\<close> is a loop or a recursion that was cut off
  by the bound on its depth, which the model adds.
\<close>

record parser =
  lexer :: lexer
  current :: token

type_synonym 'a parse = "(error + 'a \<times> parser) option"

definition returns :: "'a \<Rightarrow> parser \<Rightarrow> 'a parse" where
  "returns x ps = Some (Inr (x, ps))"

definition raises :: "error \<Rightarrow> 'a parse" where
  "raises e = Some (Inl e)"

definition andThen :: "'a parse \<Rightarrow> ('a \<Rightarrow> parser \<Rightarrow> 'b parse) \<Rightarrow> 'b parse" where
  "andThen m f =
     (case m of
        None \<Rightarrow> None
      | Some (Inl e) \<Rightarrow> Some (Inl e)
      | Some (Inr (x, ps)) \<Rightarrow> f x ps)"

definition newParser :: "string \<Rightarrow> error + parser" where
  "newParser s =
     (case nextToken (newLexer s) of
        Inl e \<Rightarrow> Inl e
      | Inr (t, lx) \<Rightarrow> Inr \<lparr> lexer = lx, current = t \<rparr>)"

definition advance :: "parser \<Rightarrow> unit parse" where
  "advance ps =
     (case nextToken (lexer ps) of
        Inl e \<Rightarrow> raises e
      | Inr (t, lx) \<Rightarrow> returns () \<lparr> lexer = lx, current = t \<rparr>)"

definition peekAhead :: "nat \<Rightarrow> parser \<Rightarrow> token parse" where
  "peekAhead count ps =
     (case peek count (lexer ps) of
        Inl e \<Rightarrow> raises e
      | Inr (t, lx) \<Rightarrow> returns t (ps\<lparr>lexer := lx\<rparr>))"

definition match :: "tokenType \<Rightarrow> parser \<Rightarrow> bool parse" where
  "match ty ps =
     (if tokType (current ps) = ty then andThen (advance ps) (\<lambda>_ ps1. returns True ps1)
      else returns False ps)"

text \<open>The string value of a member of the enum \<open>TokenType\<close>.\<close>

fun tokenTypeName :: "tokenType \<Rightarrow> string" where
  "tokenTypeName TK_NULL = ''NULL''"
| "tokenTypeName TK_TRUE = ''TRUE''"
| "tokenTypeName TK_FALSE = ''FALSE''"
| "tokenTypeName TK_INT = ''INT''"
| "tokenTypeName TK_UINT = ''UINT''"
| "tokenTypeName TK_DOUBLE = ''DOUBLE''"
| "tokenTypeName TK_STRING = ''STRING''"
| "tokenTypeName TK_BYTES = ''BYTES''"
| "tokenTypeName TK_IDENTIFIER = ''IDENTIFIER''"
| "tokenTypeName TK_PLUS = ''PLUS''"
| "tokenTypeName TK_MINUS = ''MINUS''"
| "tokenTypeName TK_STAR = ''STAR''"
| "tokenTypeName TK_SLASH = ''SLASH''"
| "tokenTypeName TK_PERCENT = ''PERCENT''"
| "tokenTypeName TK_EQ = ''EQ''"
| "tokenTypeName TK_NE = ''NE''"
| "tokenTypeName TK_LT = ''LT''"
| "tokenTypeName TK_LE = ''LE''"
| "tokenTypeName TK_GT = ''GT''"
| "tokenTypeName TK_GE = ''GE''"
| "tokenTypeName TK_LOGICAL_AND = ''LOGICAL_AND''"
| "tokenTypeName TK_LOGICAL_OR = ''LOGICAL_OR''"
| "tokenTypeName TK_BANG = ''BANG''"
| "tokenTypeName TK_IN = ''IN''"
| "tokenTypeName TK_LPAREN = ''LPAREN''"
| "tokenTypeName TK_RPAREN = ''RPAREN''"
| "tokenTypeName TK_LBRACKET = ''LBRACKET''"
| "tokenTypeName TK_RBRACKET = ''RBRACKET''"
| "tokenTypeName TK_LBRACE = ''LBRACE''"
| "tokenTypeName TK_RBRACE = ''RBRACE''"
| "tokenTypeName TK_DOT = ''DOT''"
| "tokenTypeName TK_COMMA = ''COMMA''"
| "tokenTypeName TK_COLON = ''COLON''"
| "tokenTypeName TK_QUESTION = ''QUESTION''"
| "tokenTypeName TK_EOF = ''EOF''"

definition expect :: "tokenType \<Rightarrow> parser \<Rightarrow> unit parse" where
  "expect ty ps =
     (if tokType (current ps) \<noteq> ty
      then raises (ParseError
             (''Expected '' @ tokenTypeName ty @ '' but found '' @ tokenTypeName (tokType (current ps)))
             (tokLine (current ps)) (tokColumn (current ps)))
      else advance ps)"

definition expectIdentifier :: "parser \<Rightarrow> string parse" where
  "expectIdentifier ps =
     (if tokType (current ps) \<noteq> TK_IDENTIFIER
      then raises (ParseError (''Expected identifier but found '' @ tokValue (current ps))
             (tokLine (current ps)) (tokColumn (current ps)))
      else let name = tokValue (current ps)
           in andThen (advance ps) (\<lambda>_ ps1. returns name ps1))"

subsection \<open>Literals\<close>

definition startsWith :: "string \<Rightarrow> string \<Rightarrow> bool" where
  "startsWith s p = (take (length p) s = p)"

text \<open>
  \<open>s.substring(from, to)\<close> in general: both indices are clamped to the length (a
  negative \<open>to\<close> is \<open>0\<close>, as the truncated subtraction of naturals has it) and swapped
  when \<open>from\<close> exceeds \<open>to\<close>. \<open>s.substring(from)\<close> is \<open>drop from s\<close>.
\<close>

definition substringJS :: "string \<Rightarrow> nat \<Rightarrow> nat \<Rightarrow> string" where
  "substringJS s from to =
     (let a = min from (length s); b = min to (length s)
      in take (max a b - min a b) (drop (min a b) s))"

definition parseIntLiteral :: "builtins \<Rightarrow> string \<Rightarrow> rat" where
  "parseIntLiteral rt v =
     (if startsWith v ''-0x'' \<or> startsWith v ''-0X'' then - parseInt rt (drop 3 v) 16
      else if startsWith v ''0x'' \<or> startsWith v ''0X'' then parseInt rt (drop 2 v) 16
      else parseInt rt v 10)"

definition parseUintLiteral :: "builtins \<Rightarrow> string \<Rightarrow> rat" where
  "parseUintLiteral rt v =
     (let number = substringJS v 0 (length v - 1)
      in if startsWith number ''0x'' \<or> startsWith number ''0X''
         then parseInt rt (drop 2 number) 16
         else parseInt rt number 10)"

text \<open>
  The loop of \<open>unescapeString\<close>, on the index \<open>i\<close> and the result so far. \<open>value[j]\<close>
  is only read at \<open>j < value.length\<close>.
\<close>

definition isOctalEscape :: "string \<Rightarrow> nat \<Rightarrow> bool" where
  "isOctalEscape v i =
     (i + 3 < length v \<and>
      code CHR ''0'' \<le> code (v ! (i + 1)) \<and> code (v ! (i + 1)) \<le> code CHR ''3'' \<and>
      code CHR ''0'' \<le> code (v ! (i + 2)) \<and> code (v ! (i + 2)) \<le> code CHR ''7'' \<and>
      code CHR ''0'' \<le> code (v ! (i + 3)) \<and> code (v ! (i + 3)) \<le> code CHR ''7'')"

function unescapeLoop :: "builtins \<Rightarrow> string \<Rightarrow> nat \<Rightarrow> string \<Rightarrow> error + string" where
  "unescapeLoop rt v i result =
     (if \<not> i < length v then Inr result
      else if v ! i = CHR 0x5C \<and> i + 1 < length v then
        (let nxt = v ! (i + 1)
         in if nxt = CHR 0x5C then unescapeLoop rt v (i + 2) (result @ [CHR 0x5C])
            else if nxt = CHR 0x22 then unescapeLoop rt v (i + 2) (result @ [CHR 0x22])
            else if nxt = CHR 0x27 then unescapeLoop rt v (i + 2) (result @ [CHR 0x27])
            else if nxt = CHR 0x60 then unescapeLoop rt v (i + 2) (result @ [CHR 0x60])
            else if nxt = CHR ''?'' then unescapeLoop rt v (i + 2) (result @ [CHR ''?''])
            else if nxt = CHR ''a'' then unescapeLoop rt v (i + 2) (result @ [CHR 0x07])
            else if nxt = CHR ''b'' then unescapeLoop rt v (i + 2) (result @ [CHR 0x08])
            else if nxt = CHR ''f'' then unescapeLoop rt v (i + 2) (result @ [CHR 0x0C])
            else if nxt = CHR ''n'' then unescapeLoop rt v (i + 2) (result @ [CHR 0x0A])
            else if nxt = CHR ''r'' then unescapeLoop rt v (i + 2) (result @ [CHR 0x0D])
            else if nxt = CHR ''t'' then unescapeLoop rt v (i + 2) (result @ [CHR 0x09])
            else if nxt = CHR ''v'' then unescapeLoop rt v (i + 2) (result @ [CHR 0x0B])
            else if nxt = CHR ''x'' then
              (if i + 3 < length v
               then unescapeLoop rt v (i + 4)
                      (result @ fromCharCode rt (parseInt rt (substringJS v (i + 2) (i + 4)) 16))
               else unescapeLoop rt v (i + 1) (result @ [v ! i]))
            else if nxt = CHR ''u'' then
              (if i + 5 < length v
               then unescapeLoop rt v (i + 6)
                      (result @ fromCharCode rt (parseInt rt (substringJS v (i + 2) (i + 6)) 16))
               else unescapeLoop rt v (i + 1) (result @ [v ! i]))
            else if nxt = CHR ''U'' then
              (if i + 9 < length v
               then (case fromCodePoint rt (parseInt rt (substringJS v (i + 2) (i + 10)) 16) of
                       Inl e \<Rightarrow> Inl e
                     | Inr s \<Rightarrow> unescapeLoop rt v (i + 10) (result @ s))
               else unescapeLoop rt v (i + 1) (result @ [v ! i]))
            else if isOctalEscape v i
            then unescapeLoop rt v (i + 4)
                   (result @ fromCharCode rt (parseInt rt (substringJS v (i + 1) (i + 4)) 8))
            else unescapeLoop rt v (i + 1) (result @ [v ! i]))
      else unescapeLoop rt v (i + 1) (result @ [v ! i]))"
  by pat_completeness auto
termination
  by (relation "measure (\<lambda>(rt, v, i, result). length v - i)") auto

declare unescapeLoop.simps [simp del]

definition unescapeString :: "builtins \<Rightarrow> string \<Rightarrow> error + string" where
  "unescapeString rt v = unescapeLoop rt v 0 []"

definition tripleQuote :: "string \<Rightarrow> bool" where
  "tripleQuote s = (startsWith s [CHR 0x22, CHR 0x22, CHR 0x22] \<or> startsWith s [CHR 0x27, CHR 0x27, CHR 0x27])"

definition parseStringLiteral :: "builtins \<Rightarrow> string \<Rightarrow> error + string" where
  "parseStringLiteral rt v =
     (let isRaw = (startsWith v ''r'' \<or> startsWith v ''R'')
      in if isRaw \<and> tripleQuote (drop 1 v) then Inr (substringJS v 4 (length v - 3))
         else if tripleQuote v then unescapeString rt (substringJS v 3 (length v - 3))
         else if isRaw then Inr (substringJS v 2 (length v - 1))
         else unescapeString rt (substringJS v 1 (length v - 1)))"

definition parseBytesLiteral :: "builtins \<Rightarrow> string \<Rightarrow> error + string" where
  "parseBytesLiteral rt v = unescapeString rt (substringJS v 2 (length v - 1))"

definition parseLiteral :: "builtins \<Rightarrow> parser \<Rightarrow> expr parse" where
  "parseLiteral rt ps =
     (let tok = current ps
      in andThen (advance ps) (\<lambda>_ ps1.
           case tokType tok of
             TK_NULL \<Rightarrow> returns (Literal VNull NULL_VALUE) ps1
           | TK_TRUE \<Rightarrow> returns (Literal (VBool True) BOOL) ps1
           | TK_FALSE \<Rightarrow> returns (Literal (VBool False) BOOL) ps1
           | TK_INT \<Rightarrow> returns (Literal (VNum (parseIntLiteral rt (tokValue tok))) INT_LIT) ps1
           | TK_UINT \<Rightarrow> returns (Literal (VNum (parseUintLiteral rt (tokValue tok))) UINT) ps1
           | TK_DOUBLE \<Rightarrow> returns (Literal (VNum (parseFloat rt (tokValue tok))) DOUBLE) ps1
           | TK_STRING \<Rightarrow>
               (case parseStringLiteral rt (tokValue tok) of
                  Inl e \<Rightarrow> raises e
                | Inr s \<Rightarrow> returns (Literal (VStr s) STRING) ps1)
           | TK_BYTES \<Rightarrow>
               (case parseBytesLiteral rt (tokValue tok) of
                  Inl e \<Rightarrow> raises e
                | Inr s \<Rightarrow> returns (Literal (VStr s) BYTES) ps1)
           | _ \<Rightarrow> raises (ParseError (''Not a literal: '' @ tokValue tok) (tokLine tok) (tokColumn tok))))"

definition isLiteralToken :: "tokenType \<Rightarrow> bool" where
  "isLiteralToken ty =
     (ty = TK_NULL \<or> ty = TK_TRUE \<or> ty = TK_FALSE \<or> ty = TK_INT \<or> ty = TK_UINT \<or>
      ty = TK_DOUBLE \<or> ty = TK_STRING \<or> ty = TK_BYTES)"

definition isRelationalOp :: "tokenType \<Rightarrow> bool" where
  "isRelationalOp ty =
     (ty = TK_LT \<or> ty = TK_LE \<or> ty = TK_GT \<or> ty = TK_GE \<or> ty = TK_EQ \<or> ty = TK_NE \<or>
      ty = TK_IN)"

definition toBinaryOp :: "tokenType \<Rightarrow> parser \<Rightarrow> error + binaryOp" where
  "toBinaryOp ty ps =
     (case ty of
        TK_LT \<Rightarrow> Inr LESS
      | TK_LE \<Rightarrow> Inr LESS_EQUAL
      | TK_GT \<Rightarrow> Inr GREATER
      | TK_GE \<Rightarrow> Inr GREATER_EQUAL
      | TK_EQ \<Rightarrow> Inr EQUAL
      | TK_NE \<Rightarrow> Inr NOT_EQUAL
      | TK_IN \<Rightarrow> Inr IN
      | _ \<Rightarrow> Inl (ParseError (''Unknown relational operator: '' @ tokenTypeName ty)
                 (tokLine (current ps)) (tokColumn (current ps))))"


subsection \<open>The grammar\<close>

text \<open>
  The methods of the grammar call each other recursively, through \<open>parseExpr\<close>. Each
  of them takes \<open>parseExpr\<close> as its argument \<open>pe\<close>, and a bound \<open>n\<close> for its own loop;
  \<open>parseExpr\<close> itself, at the end, is defined by recursion on the bound.
\<close>

definition MACRO_METHODS :: "string list" where
  "MACRO_METHODS = [''map'', ''filter'', ''all'', ''exists'', ''existsOne'']"

primrec exprListLoop ::
  "(parser \<Rightarrow> expr parse) \<Rightarrow> nat \<Rightarrow> expr list \<Rightarrow> parser \<Rightarrow> expr list parse"
where
  "exprListLoop pe 0 expressions ps = None"
| "exprListLoop pe (Suc n) expressions ps =
     (if tokType (current ps) = TK_COMMA then
        andThen (advance ps) (\<lambda>_ ps1.
          if tokType (current ps1) = TK_RPAREN \<or> tokType (current ps1) = TK_RBRACKET
          then returns expressions ps1
          else andThen (pe ps1) (\<lambda>e ps2. exprListLoop pe n (expressions @ [e]) ps2))
      else returns expressions ps)"

definition parseExprList ::
  "(parser \<Rightarrow> expr parse) \<Rightarrow> nat \<Rightarrow> parser \<Rightarrow> expr list parse"
where
  "parseExprList pe n ps =
     (let currentType = tokType (current ps)
      in if currentType = TK_RPAREN \<or> currentType = TK_RBRACKET then returns [] ps
         else andThen (pe ps) (\<lambda>e ps1. exprListLoop pe n [e] ps1))"

definition parseListLiteral ::
  "(parser \<Rightarrow> expr parse) \<Rightarrow> nat \<Rightarrow> parser \<Rightarrow> expr parse"
where
  "parseListLiteral pe n ps =
     andThen (expect TK_LBRACKET ps) (\<lambda>_ ps1.
       andThen
         (if tokType (current ps1) \<noteq> TK_RBRACKET then
            andThen (parseExprList pe n ps1) (\<lambda>elements ps2.
              if tokType (current ps2) = TK_COMMA
              then andThen (advance ps2) (\<lambda>_ ps3. returns elements ps3)
              else returns elements ps2)
          else returns [] ps1)
         (\<lambda>elements ps4.
            andThen (expect TK_RBRACKET ps4) (\<lambda>_ ps5. returns (ListExpression elements) ps5)))"

definition parseMapInit ::
  "(parser \<Rightarrow> expr parse) \<Rightarrow> parser \<Rightarrow> (expr \<times> expr) parse"
where
  "parseMapInit pe ps =
     andThen (pe ps) (\<lambda>key ps1.
       andThen (expect TK_COLON ps1) (\<lambda>_ ps2.
         andThen (pe ps2) (\<lambda>v ps3. returns (key, v) ps3)))"

primrec mapInitsLoop ::
  "(parser \<Rightarrow> expr parse) \<Rightarrow> nat \<Rightarrow> (expr \<times> expr) list \<Rightarrow> parser \<Rightarrow> (expr \<times> expr) list parse"
where
  "mapInitsLoop pe 0 entries ps = None"
| "mapInitsLoop pe (Suc n) entries ps =
     (if tokType (current ps) = TK_COMMA then
        andThen (advance ps) (\<lambda>_ ps1.
          if tokType (current ps1) = TK_RBRACE then returns entries ps1
          else andThen (parseMapInit pe ps1) (\<lambda>entry ps2.
                 mapInitsLoop pe n (entries @ [entry]) ps2))
      else returns entries ps)"

definition parseMapInits ::
  "(parser \<Rightarrow> expr parse) \<Rightarrow> nat \<Rightarrow> parser \<Rightarrow> (expr \<times> expr) list parse"
where
  "parseMapInits pe n ps =
     andThen (parseMapInit pe ps) (\<lambda>entry ps1. mapInitsLoop pe n [entry] ps1)"

definition parseFieldInit ::
  "(parser \<Rightarrow> expr parse) \<Rightarrow> parser \<Rightarrow> (string \<times> expr) parse"
where
  "parseFieldInit pe ps =
     andThen (expectIdentifier ps) (\<lambda>field ps1.
       andThen (expect TK_COLON ps1) (\<lambda>_ ps2.
         andThen (pe ps2) (\<lambda>v ps3. returns (field, v) ps3)))"

primrec fieldInitsLoop ::
  "(parser \<Rightarrow> expr parse) \<Rightarrow> nat \<Rightarrow> (string \<times> expr) list \<Rightarrow> parser \<Rightarrow> (string \<times> expr) list parse"
where
  "fieldInitsLoop pe 0 fieldInits ps = None"
| "fieldInitsLoop pe (Suc n) fieldInits ps =
     (if tokType (current ps) = TK_COMMA then
        andThen (advance ps) (\<lambda>_ ps1.
          if tokType (current ps1) = TK_RBRACE then returns fieldInits ps1
          else andThen (parseFieldInit pe ps1) (\<lambda>fieldInit ps2.
                 fieldInitsLoop pe n (fieldInits @ [fieldInit]) ps2))
      else returns fieldInits ps)"

definition parseFieldInits ::
  "(parser \<Rightarrow> expr parse) \<Rightarrow> nat \<Rightarrow> parser \<Rightarrow> (string \<times> expr) list parse"
where
  "parseFieldInits pe n ps =
     andThen (parseFieldInit pe ps) (\<lambda>fieldInit ps1. fieldInitsLoop pe n [fieldInit] ps1)"

text \<open>
  \<open>isStruct\<close> of \<open>parseMapOrStructLiteral\<close>: \<open>peekAhead(1)\<close> is only called, and may only
  raise, when the current token is an identifier.
\<close>

definition isStruct :: "parser \<Rightarrow> bool parse" where
  "isStruct ps =
     (if tokType (current ps) = TK_IDENTIFIER
      then andThen (peekAhead 1 ps) (\<lambda>tok ps1. returns (tokType tok = TK_COLON) ps1)
      else returns False ps)"

definition parseMapOrStructLiteral ::
  "(parser \<Rightarrow> expr parse) \<Rightarrow> nat \<Rightarrow> string option \<Rightarrow> parser \<Rightarrow> expr parse"
where
  "parseMapOrStructLiteral pe n typeName ps =
     andThen (expect TK_LBRACE ps) (\<lambda>_ ps1.
       if tokType (current ps1) = TK_RBRACE then
         andThen (advance ps1) (\<lambda>_ ps2.
           if typeName \<noteq> None then returns (Struct typeName []) ps2
           else returns (MapExpression []) ps2)
       else
         andThen (isStruct ps1) (\<lambda>isStruct ps2.
           if isStruct \<or> typeName \<noteq> None then
             andThen (parseFieldInits pe n ps2) (\<lambda>fieldInits ps3.
               andThen
                 (if tokType (current ps3) = TK_COMMA then advance ps3 else returns () ps3)
                 (\<lambda>_ ps4.
                    andThen (expect TK_RBRACE ps4) (\<lambda>_ ps5.
                      returns (Struct typeName fieldInits) ps5)))
           else
             andThen (parseMapInits pe n ps2) (\<lambda>entries ps3.
               andThen
                 (if tokType (current ps3) = TK_COMMA then advance ps3 else returns () ps3)
                 (\<lambda>_ ps4.
                    andThen (expect TK_RBRACE ps4) (\<lambda>_ ps5.
                      returns (MapExpression entries) ps5)))))"

text \<open>
  The loop of \<open>isQualifiedStructLiteral\<close>, on the number \<open>ahead\<close> of the token \<open>tok\<close>
  that was peeked last.
\<close>

primrec qualifiedLoop :: "nat \<Rightarrow> nat \<Rightarrow> token \<Rightarrow> parser \<Rightarrow> bool parse" where
  "qualifiedLoop 0 ahead tok ps = None"
| "qualifiedLoop (Suc n) ahead tok ps =
     (if tokType tok = TK_DOT then
        andThen (peekAhead (ahead + 1) ps) (\<lambda>tok1 ps1.
          if tokType tok1 \<noteq> TK_IDENTIFIER then returns False ps1
          else andThen (peekAhead (ahead + 2) ps1) (\<lambda>tok2 ps2.
                 qualifiedLoop n (ahead + 2) tok2 ps2))
      else returns (tokType tok = TK_LBRACE) ps)"

definition isQualifiedStructLiteral :: "nat \<Rightarrow> parser \<Rightarrow> bool parse" where
  "isQualifiedStructLiteral n ps =
     andThen (peekAhead 1 ps) (\<lambda>tok ps1.
       if tokType tok \<noteq> TK_IDENTIFIER then returns False ps1
       else andThen (peekAhead 2 ps1) (\<lambda>tok1 ps2. qualifiedLoop n 2 tok1 ps2))"

primrec parseQualifiedIdent :: "nat \<Rightarrow> string \<Rightarrow> parser \<Rightarrow> string parse" where
  "parseQualifiedIdent 0 qualified ps = None"
| "parseQualifiedIdent (Suc n) qualified ps =
     (if tokType (current ps) = TK_DOT then
        andThen (advance ps) (\<lambda>_ ps1.
          andThen (expectIdentifier ps1) (\<lambda>name ps2.
            parseQualifiedIdent n (qualified @ ''.'' @ name) ps2))
      else returns qualified ps)"

definition parsePrimary ::
  "builtins \<Rightarrow> (parser \<Rightarrow> expr parse) \<Rightarrow> nat \<Rightarrow> parser \<Rightarrow> expr parse"
where
  "parsePrimary rt pe n ps =
     (if isLiteralToken (tokType (current ps)) then parseLiteral rt ps
      else if tokType (current ps) = TK_LBRACKET then parseListLiteral pe n ps
      else if tokType (current ps) = TK_LBRACE then parseMapOrStructLiteral pe n None ps
      else if tokType (current ps) = TK_LPAREN then
        andThen (advance ps) (\<lambda>_ ps1.
          andThen (pe ps1) (\<lambda>e ps2.
            andThen (expect TK_RPAREN ps2) (\<lambda>_ ps3. returns e ps3)))
      else if tokType (current ps) = TK_DOT then
        andThen (advance ps) (\<lambda>_ ps1.
          andThen (expectIdentifier ps1) (\<lambda>field ps2.
            if tokType (current ps2) = TK_LPAREN then
              andThen (advance ps2) (\<lambda>_ ps3.
                andThen (parseExprList pe n ps3) (\<lambda>args ps4.
                  andThen (expect TK_RPAREN ps4) (\<lambda>_ ps5.
                    returns (Call None field args False) ps5)))
            else returns (Select None field False) ps2))
      else if tokType (current ps) = TK_IDENTIFIER then
        (let name = tokValue (current ps)
         in andThen (advance ps) (\<lambda>_ ps1.
              if tokType (current ps1) = TK_LPAREN then
                andThen (advance ps1) (\<lambda>_ ps2.
                  andThen (parseExprList pe n ps2) (\<lambda>args ps3.
                    andThen (expect TK_RPAREN ps3) (\<lambda>_ ps4.
                      returns (Call None name args False) ps4)))
              else
                andThen
                  (if tokType (current ps1) = TK_DOT then isQualifiedStructLiteral n ps1
                   else returns False ps1)
                  (\<lambda>qualifiedStruct ps2.
                     if qualifiedStruct then
                       andThen (parseQualifiedIdent n name ps2) (\<lambda>qualified ps3.
                         parseMapOrStructLiteral pe n (Some qualified) ps3)
                     else if tokType (current ps2) = TK_LBRACE
                     then parseMapOrStructLiteral pe n (Some name) ps2
                     else returns (Identifier name) ps2)))
      else raises (ParseError (''Unexpected token: '' @ tokValue (current ps))
             (tokLine (current ps)) (tokColumn (current ps))))"

primrec memberLoop ::
  "(parser \<Rightarrow> expr parse) \<Rightarrow> nat \<Rightarrow> expr \<Rightarrow> parser \<Rightarrow> expr parse"
where
  "memberLoop pe 0 e ps = None"
| "memberLoop pe (Suc n) e ps =
     (if tokType (current ps) = TK_DOT then
        andThen (advance ps) (\<lambda>_ ps1.
          andThen (expectIdentifier ps1) (\<lambda>field ps2.
            if tokType (current ps2) = TK_LPAREN then
              andThen (advance ps2) (\<lambda>_ ps3.
                andThen (parseExprList pe n ps3) (\<lambda>args ps4.
                  andThen (expect TK_RPAREN ps4) (\<lambda>_ ps5.
                    memberLoop pe n (Call (Some e) field args (field \<in> set MACRO_METHODS)) ps5)))
            else memberLoop pe n (Select (Some e) field False) ps2))
      else if tokType (current ps) = TK_LBRACKET then
        andThen (advance ps) (\<lambda>_ ps1.
          andThen (pe ps1) (\<lambda>index ps2.
            andThen (expect TK_RBRACKET ps2) (\<lambda>_ ps3. memberLoop pe n (Index e index) ps3)))
      else returns e ps)"

definition parseMember ::
  "builtins \<Rightarrow> (parser \<Rightarrow> expr parse) \<Rightarrow> nat \<Rightarrow> parser \<Rightarrow> expr parse"
where
  "parseMember rt pe n ps = andThen (parsePrimary rt pe n ps) (\<lambda>e ps1. memberLoop pe n e ps1)"

primrec parseUnary ::
  "builtins \<Rightarrow> (parser \<Rightarrow> expr parse) \<Rightarrow> nat \<Rightarrow> parser \<Rightarrow> expr parse"
where
  "parseUnary rt pe 0 ps = None"
| "parseUnary rt pe (Suc n) ps =
     (if tokType (current ps) = TK_BANG then
        andThen (advance ps) (\<lambda>_ ps1.
          andThen (parseUnary rt pe n ps1) (\<lambda>e ps2. returns (Unary NOT e) ps2))
      else if tokType (current ps) = TK_MINUS then
        andThen (advance ps) (\<lambda>_ ps1.
          andThen (parseUnary rt pe n ps1) (\<lambda>e ps2. returns (Unary NEGATE e) ps2))
      else parseMember rt pe n ps)"

primrec multiplicationLoop ::
  "(parser \<Rightarrow> expr parse) \<Rightarrow> nat \<Rightarrow> expr \<Rightarrow> parser \<Rightarrow> expr parse"
where
  "multiplicationLoop operand 0 left ps = None"
| "multiplicationLoop operand (Suc n) left ps =
     (if tokType (current ps) = TK_STAR \<or> tokType (current ps) = TK_SLASH \<or>
         tokType (current ps) = TK_PERCENT
      then
        (let op = tokType (current ps)
         in andThen (advance ps) (\<lambda>_ ps1.
              andThen (operand ps1) (\<lambda>right ps2.
                let operator = (if op = TK_STAR then MULTIPLY
                                else if op = TK_SLASH then DIVIDE else MODULO)
                in multiplicationLoop operand n (Binary operator left right) ps2)))
      else returns left ps)"

definition parseMultiplication ::
  "builtins \<Rightarrow> (parser \<Rightarrow> expr parse) \<Rightarrow> nat \<Rightarrow> parser \<Rightarrow> expr parse"
where
  "parseMultiplication rt pe n ps =
     andThen (parseUnary rt pe n ps) (\<lambda>left ps1. multiplicationLoop (parseUnary rt pe n) n left ps1)"

primrec additionLoop ::
  "(parser \<Rightarrow> expr parse) \<Rightarrow> nat \<Rightarrow> expr \<Rightarrow> parser \<Rightarrow> expr parse"
where
  "additionLoop operand 0 left ps = None"
| "additionLoop operand (Suc n) left ps =
     (if tokType (current ps) = TK_PLUS \<or> tokType (current ps) = TK_MINUS then
        (let op = tokType (current ps)
         in andThen (advance ps) (\<lambda>_ ps1.
              andThen (operand ps1) (\<lambda>right ps2.
                additionLoop operand n
                  (Binary (if op = TK_PLUS then ADD else SUBTRACT) left right) ps2)))
      else returns left ps)"

definition parseAddition ::
  "builtins \<Rightarrow> (parser \<Rightarrow> expr parse) \<Rightarrow> nat \<Rightarrow> parser \<Rightarrow> expr parse"
where
  "parseAddition rt pe n ps =
     andThen (parseMultiplication rt pe n ps) (\<lambda>left ps1.
       additionLoop (parseMultiplication rt pe n) n left ps1)"

primrec relationLoop ::
  "(parser \<Rightarrow> expr parse) \<Rightarrow> nat \<Rightarrow> expr \<Rightarrow> parser \<Rightarrow> expr parse"
where
  "relationLoop operand 0 left ps = None"
| "relationLoop operand (Suc n) left ps =
     (if isRelationalOp (tokType (current ps)) then
        (let op = tokType (current ps)
         in andThen (advance ps) (\<lambda>_ ps1.
              andThen (operand ps1) (\<lambda>right ps2.
                case toBinaryOp op ps2 of
                  Inl e \<Rightarrow> raises e
                | Inr bop \<Rightarrow> relationLoop operand n (Binary bop left right) ps2)))
      else returns left ps)"

definition parseRelation ::
  "builtins \<Rightarrow> (parser \<Rightarrow> expr parse) \<Rightarrow> nat \<Rightarrow> parser \<Rightarrow> expr parse"
where
  "parseRelation rt pe n ps =
     andThen (parseAddition rt pe n ps) (\<lambda>left ps1.
       relationLoop (parseAddition rt pe n) n left ps1)"

primrec conditionalAndLoop ::
  "(parser \<Rightarrow> expr parse) \<Rightarrow> nat \<Rightarrow> expr \<Rightarrow> parser \<Rightarrow> expr parse"
where
  "conditionalAndLoop operand 0 left ps = None"
| "conditionalAndLoop operand (Suc n) left ps =
     andThen (match TK_LOGICAL_AND ps) (\<lambda>matched ps1.
       if matched then
         andThen (operand ps1) (\<lambda>right ps2.
           conditionalAndLoop operand n (Binary LOGICAL_AND left right) ps2)
       else returns left ps1)"

definition parseConditionalAnd ::
  "builtins \<Rightarrow> (parser \<Rightarrow> expr parse) \<Rightarrow> nat \<Rightarrow> parser \<Rightarrow> expr parse"
where
  "parseConditionalAnd rt pe n ps =
     andThen (parseRelation rt pe n ps) (\<lambda>left ps1.
       conditionalAndLoop (parseRelation rt pe n) n left ps1)"

primrec conditionalOrLoop ::
  "(parser \<Rightarrow> expr parse) \<Rightarrow> nat \<Rightarrow> expr \<Rightarrow> parser \<Rightarrow> expr parse"
where
  "conditionalOrLoop operand 0 left ps = None"
| "conditionalOrLoop operand (Suc n) left ps =
     andThen (match TK_LOGICAL_OR ps) (\<lambda>matched ps1.
       if matched then
         andThen (operand ps1) (\<lambda>right ps2.
           conditionalOrLoop operand n (Binary LOGICAL_OR left right) ps2)
       else returns left ps1)"

definition parseConditionalOr ::
  "builtins \<Rightarrow> (parser \<Rightarrow> expr parse) \<Rightarrow> nat \<Rightarrow> parser \<Rightarrow> expr parse"
where
  "parseConditionalOr rt pe n ps =
     andThen (parseConditionalAnd rt pe n ps) (\<lambda>left ps1.
       conditionalOrLoop (parseConditionalAnd rt pe n) n left ps1)"

primrec parseExpr :: "builtins \<Rightarrow> nat \<Rightarrow> parser \<Rightarrow> expr parse" where
  "parseExpr rt 0 ps = None"
| "parseExpr rt (Suc n) ps =
     andThen (parseConditionalOr rt (parseExpr rt n) n ps) (\<lambda>condition ps1.
       andThen (match TK_QUESTION ps1) (\<lambda>matched ps2.
         if matched then
           andThen (parseConditionalOr rt (parseExpr rt n) n ps2) (\<lambda>thenExpr ps3.
             andThen (expect TK_COLON ps3) (\<lambda>_ ps4.
               andThen (parseExpr rt n ps4) (\<lambda>otherwiseExpr ps5.
                 returns (Conditional condition thenExpr otherwiseExpr) ps5)))
         else returns condition ps2))"

text \<open>\<open>new Parser(input).parse()\<close>, with the bound \<open>n\<close> on the depth.\<close>

definition parse :: "builtins \<Rightarrow> nat \<Rightarrow> string \<Rightarrow> (error + expr) option" where
  "parse rt n s =
     (case newParser s of
        Inl e \<Rightarrow> Some (Inl e)
      | Inr ps \<Rightarrow>
          (case parseExpr rt n ps of
             None \<Rightarrow> None
           | Some (Inl e) \<Rightarrow> Some (Inl e)
           | Some (Inr (e, ps1)) \<Rightarrow>
               if tokType (current ps1) \<noteq> TK_EOF
               then Some (Inl (ParseError (''Unexpected token after expression: '' @ tokValue (current ps1))
                      (tokLine (current ps1)) (tokColumn (current ps1))))
               else Some (Inr e)))"

subsection \<open>An example runtime\<close>

text \<open>
  \<open>parseInt\<close> and \<open>parseFloat\<close> on the digits that lead the string (where no digit
  leads, JavaScript has \<open>NaN\<close>, which is no number of the model), and
  \<open>String.fromCharCode\<close> for the code units below 256, which are the characters of
  the model.
\<close>

definition digitOf :: "char \<Rightarrow> nat option" where
  "digitOf c =
     (if code CHR ''0'' \<le> code c \<and> code c \<le> code CHR ''9'' then Some (code c - code CHR ''0'')
      else if code CHR ''a'' \<le> code c \<and> code c \<le> code CHR ''z'' then Some (code c - code CHR ''a'' + 10)
      else if code CHR ''A'' \<le> code c \<and> code c \<le> code CHR ''Z'' then Some (code c - code CHR ''A'' + 10)
      else None)"

fun digitsValue :: "nat \<Rightarrow> nat \<Rightarrow> string \<Rightarrow> nat" where
  "digitsValue radix acc [] = acc"
| "digitsValue radix acc (c # cs) =
     (case digitOf c of
        None \<Rightarrow> acc
      | Some d \<Rightarrow> if d < radix then digitsValue radix (acc * radix + d) cs else acc)"

definition exampleBuiltins :: builtins where
  "exampleBuiltins =
     \<lparr> parseInt = (\<lambda>s radix. of_nat (digitsValue radix 0 s)),
       parseFloat = (\<lambda>s. of_nat (digitsValue 10 0 s)),
       fromCharCode = (\<lambda>r. [char_of (nat \<lfloor>r\<rfloor>)]),
       fromCodePoint = (\<lambda>r. Inr [char_of (nat \<lfloor>r\<rfloor>)]) \<rparr>"

text \<open>
  Whether the entry at the current token begins with a bare identifier that is
  immediately followed by a colon: the current token is an identifier and the token
  after it is a colon.
\<close>

definition beginsWithField :: "parser \<Rightarrow> bool" where
  "beginsWithField ps =
     (tokType (current ps) = TK_IDENTIFIER \<and>
      (case peek 1 (lexer ps) of
         Inl e \<Rightarrow> False
       | Inr (t, lx) \<Rightarrow> tokType t = TK_COLON))"

text \<open>Parser states on a one-line input, for the examples.\<close>

definition exampleState :: "string \<Rightarrow> nat \<Rightarrow> token list \<Rightarrow> token \<Rightarrow> parser" where
  "exampleState s p ahead t =
     \<lparr> lexer = \<lparr> input = s, position = p, line = 1, column = p + 1, lookahead = ahead \<rparr>,
       current = t \<rparr>"

definition mapExample :: string where
  "mapExample = [CHR ''{'', CHR 0x22, CHR ''a'', CHR 0x22, CHR '':'', CHR ''1'', CHR ''}'']"


subsection \<open>The tokens left\<close>

text \<open>
  The tokens that a parser has left are at most: the current token, unless it is the end
  of the input; the tokens in the buffer of the lexer that are not the end of the input;
  and one token for each character that the lexer has not read.
\<close>

definition pending :: "lexer \<Rightarrow> nat" where
  "pending lx =
     length (filter (\<lambda>t. tokType t \<noteq> TK_EOF) (lookahead lx)) + (length (input lx) - position lx)"

definition remaining :: "parser \<Rightarrow> nat" where
  "remaining ps = (if tokType (current ps) = TK_EOF then 0 else 1) + pending (lexer ps)"

text \<open>
  A result \<open>keeps\<close> the tokens left when it is not cut off by the bound and, if it
  returns, has left no more of them than the state it started from; it \<open>consumes\<close> when
  it has left fewer. An expression parser is \<open>good\<close> up to \<open>b\<close> when it consumes on
  every state with fewer than \<open>b\<close> tokens left.
\<close>

definition keeps :: "parser \<Rightarrow> 'a parse \<Rightarrow> bool" where
  "keeps ps r =
     (case r of
        None \<Rightarrow> False
      | Some (Inl e) \<Rightarrow> True
      | Some (Inr (x, ps')) \<Rightarrow> remaining ps' \<le> remaining ps)"

definition consumes :: "parser \<Rightarrow> 'a parse \<Rightarrow> bool" where
  "consumes ps r =
     (case r of
        None \<Rightarrow> False
      | Some (Inl e) \<Rightarrow> True
      | Some (Inr (x, ps')) \<Rightarrow> remaining ps' < remaining ps)"

definition good :: "(parser \<Rightarrow> 'a parse) \<Rightarrow> nat \<Rightarrow> bool" where
  "good f b = (\<forall>ps. remaining ps < b \<longrightarrow> consumes ps (f ps))"

text \<open>
  For the look-ahead of \<open>isQualifiedStructLiteral\<close>: the count, from any index on, of the
  tokens in the buffer that are not the end of the input, plus the characters left.
\<close>

definition pendingFrom :: "nat \<Rightarrow> lexer \<Rightarrow> nat" where
  "pendingFrom i lx =
     length (filter (\<lambda>t. tokType t \<noteq> TK_EOF) (drop i (lookahead lx))) +
     (length (input lx) - position lx)"

section \<open>Properties of the interpreter\<close>

subsection \<open>Evaluation leaves the variables as they were\<close>

text \<open>
  Two sets of variables agree outside \<open>S\<close> when they bind every name that is not in
  \<open>S\<close> alike. A macro only ever assigns its loop variable, so the variables during
  its loop agree with the ones before it outside that name, and the \<open>finally\<close>
  block puts the saved binding back.
\<close>

definition agree :: "string set \<Rightarrow> env \<Rightarrow> env \<Rightarrow> bool" where
  "agree S env env' = (\<forall>n. n \<notin> S \<longrightarrow> env' n = env n)"

lemma agree_refl: "agree S env env"
  by (simp add: agree_def)

lemma agree_upd: "agree S env env' \<Longrightarrow> v \<in> S \<Longrightarrow> agree S env (env'(v \<mapsto> x))"
  by (simp add: agree_def)

lemma restore_agree: "agree {v} env env' \<Longrightarrow> restore v (env v) env' = env"
  by (auto simp: agree_def restore_def fun_eq_iff split: option.splits)

lemma restore2_agree:
  "agree {v, a} env env' \<Longrightarrow> restore a (env a) (restore v (env v) env') = env"
  by (auto simp: agree_def restore_def fun_eq_iff split: option.splits)

lemma evaluateAll_env:
  "(\<And>x e. x \<in> set xs \<Longrightarrow> snd (ev x e) = e) \<Longrightarrow> snd (evaluateAll ev xs env) = env"
proof (induction xs arbitrary: env)
  case Nil
  then show ?case by simp
next
  case (Cons x xs)
  obtain r where 1: "ev x env = (r, env)"
    using Cons.prems [of x env] by (metis list.set_intros(1) prod.collapse)
  obtain rs where 2: "evaluateAll ev xs env = (rs, env)"
    using Cons.IH [of env] Cons.prems by (metis list.set_intros(2) prod.collapse)
  show ?case using 1 2 by (simp split: sum.splits)
qed

lemma visitMapEntries_env:
  "(\<And>x e. x \<in> set xs \<Longrightarrow> snd (ev (fst x) e) = e) \<Longrightarrow>
   (\<And>x e. x \<in> set xs \<Longrightarrow> snd (ev (snd x) e) = e) \<Longrightarrow>
     snd (visitMapEntries h ev xs m env) = env"
proof (induction xs arbitrary: m)
  case Nil
  then show ?case by simp
next
  case (Cons x xs)
  obtain r where 1: "ev (fst x) env = (r, env)"
    using Cons.prems(1) [of x env] by (metis list.set_intros(1) prod.collapse)
  obtain r' where 2: "ev (snd x) env = (r', env)"
    using Cons.prems(2) [of x env] by (metis list.set_intros(1) prod.collapse)
  have 3: "\<And>m. snd (visitMapEntries h ev xs m env) = env"
    using Cons.IH Cons.prems by (metis list.set_intros(2))
  show ?case using 1 2 3 by (simp split: sum.splits)
qed

lemma visitStructFields_env:
  "(\<And>x e. x \<in> set xs \<Longrightarrow> snd (ev (snd x) e) = e) \<Longrightarrow>
     snd (visitStructFields ev xs m env) = env"
proof (induction xs arbitrary: m)
  case Nil
  then show ?case by simp
next
  case (Cons x xs)
  obtain r where 1: "ev (snd x) env = (r, env)"
    using Cons.prems [of x env] by (metis list.set_intros(1) prod.collapse)
  have 3: "\<And>m. snd (visitStructFields ev xs m env) = env"
    using Cons.IH Cons.prems by (metis list.set_intros(2))
  show ?case using 1 3 by (simp split: sum.splits)
qed

lemma macroMap_agree:
  "(\<And>e. snd (ev e) = e) \<Longrightarrow> agree {v} env env0 \<Longrightarrow>
     agree {v} env (snd (macroMap ev v items results env0))"
proof (induction items arbitrary: env0 results)
  case Nil
  then show ?case by simp
next
  case (Cons x xs)
  obtain r where 1: "ev (env0(v \<mapsto> x)) = (r, env0(v \<mapsto> x))"
    using Cons.prems(1) by (metis prod.collapse)
  have 2: "agree {v} env (env0(v \<mapsto> x))" using Cons.prems(2) by (simp add: agree_upd)
  note IH = Cons.IH [OF Cons.prems(1) 2]
  show ?case
  proof (cases r)
    case (Inl e)
    then show ?thesis using 1 2 by (simp del: fun_upd_apply)
  next
    case (Inr c)
    then show ?thesis using 1 2 IH by (simp del: fun_upd_apply)
  qed
qed

lemma macroFilter_agree:
  "(\<And>e. snd (ev e) = e) \<Longrightarrow> agree {v} env env0 \<Longrightarrow>
     agree {v} env (snd (macroFilter ev v items results env0))"
proof (induction items arbitrary: env0 results)
  case Nil
  then show ?case by simp
next
  case (Cons x xs)
  obtain r where 1: "ev (env0(v \<mapsto> x)) = (r, env0(v \<mapsto> x))"
    using Cons.prems(1) by (metis prod.collapse)
  have 2: "agree {v} env (env0(v \<mapsto> x))" using Cons.prems(2) by (simp add: agree_upd)
  note IH = Cons.IH [OF Cons.prems(1) 2]
  show ?case
  proof (cases r)
    case (Inl e)
    then show ?thesis using 1 2 by (simp del: fun_upd_apply)
  next
    case (Inr c)
    then show ?thesis using 1 2 IH by (simp del: fun_upd_apply)
  qed
qed

lemma macroAll_agree:
  "(\<And>e. snd (ev e) = e) \<Longrightarrow> agree {v} env env0 \<Longrightarrow>
     agree {v} env (snd (macroAll ev v items env0))"
proof (induction items arbitrary: env0 )
  case Nil
  then show ?case by simp
next
  case (Cons x xs)
  obtain r where 1: "ev (env0(v \<mapsto> x)) = (r, env0(v \<mapsto> x))"
    using Cons.prems(1) by (metis prod.collapse)
  have 2: "agree {v} env (env0(v \<mapsto> x))" using Cons.prems(2) by (simp add: agree_upd)
  note IH = Cons.IH [OF Cons.prems(1) 2]
  show ?case
  proof (cases r)
    case (Inl e)
    then show ?thesis using 1 2 by (simp del: fun_upd_apply)
  next
    case (Inr c)
    then show ?thesis using 1 2 IH by (simp del: fun_upd_apply)
  qed
qed

lemma macroExists_agree:
  "(\<And>e. snd (ev e) = e) \<Longrightarrow> agree {v} env env0 \<Longrightarrow>
     agree {v} env (snd (macroExists ev v items env0))"
proof (induction items arbitrary: env0 )
  case Nil
  then show ?case by simp
next
  case (Cons x xs)
  obtain r where 1: "ev (env0(v \<mapsto> x)) = (r, env0(v \<mapsto> x))"
    using Cons.prems(1) by (metis prod.collapse)
  have 2: "agree {v} env (env0(v \<mapsto> x))" using Cons.prems(2) by (simp add: agree_upd)
  note IH = Cons.IH [OF Cons.prems(1) 2]
  show ?case
  proof (cases r)
    case (Inl e)
    then show ?thesis using 1 2 by (simp del: fun_upd_apply)
  next
    case (Inr c)
    then show ?thesis using 1 2 IH by (simp del: fun_upd_apply)
  qed
qed

lemma macroExistsOne_agree:
  "(\<And>e. snd (ev e) = e) \<Longrightarrow> agree {v} env env0 \<Longrightarrow>
     agree {v} env (snd (macroExistsOne ev v items count env0))"
proof (induction items arbitrary: env0 count)
  case Nil
  then show ?case by simp
next
  case (Cons x xs)
  obtain r where 1: "ev (env0(v \<mapsto> x)) = (r, env0(v \<mapsto> x))"
    using Cons.prems(1) by (metis prod.collapse)
  have 2: "agree {v} env (env0(v \<mapsto> x))" using Cons.prems(2) by (simp add: agree_upd)
  note IH = Cons.IH [OF Cons.prems(1) 2]
  show ?case
  proof (cases r)
    case (Inl e)
    then show ?thesis using 1 2 by (simp del: fun_upd_apply)
  next
    case (Inr c)
    then show ?thesis using 1 2 IH by (simp del: fun_upd_apply)
  qed
qed

lemma evaluateMacro_env:
  assumes "\<And>e. snd (ev e) = e"
  shows "snd (evaluateMacro ev target functionName v env) = env"
proof (cases target)
  case (VList items)
  let ?r = "(if functionName = ''map'' then macroMap ev v items [] env
                  else if functionName = ''filter'' then macroFilter ev v items [] env
                  else if functionName = ''all'' then macroAll ev v items env
                  else if functionName = ''exists'' then macroExists ev v items env
                  else if functionName = ''existsOne'' then macroExistsOne ev v items 0 env
                  else (Inl (EvaluationError (''Unknown macro function: '' @ functionName)), env))"
  have "agree {v} env (snd ?r)"
    using macroMap_agree [OF assms agree_refl] macroFilter_agree [OF assms agree_refl]
      macroAll_agree [OF assms agree_refl] macroExists_agree [OF assms agree_refl]
      macroExistsOne_agree [OF assms agree_refl]
    by (simp add: agree_refl)
  then have "restore v (env v) (snd ?r) = env" by (rule restore_agree)
  then show ?thesis using VList by (simp add: evaluateMacro_def Let_def split_beta)
qed (simp_all add: evaluateMacro_def)

lemma comprehensionLoop_agree:
  "(\<And>e. snd (evC e) = e) \<Longrightarrow> (\<And>e. snd (evS e) = e) \<Longrightarrow> agree {v, a} env env0 \<Longrightarrow>
     agree {v, a} env (snd (comprehensionLoop evC evS v a items env0))"
proof (induction items arbitrary: env0)
  case Nil
  then show ?case by simp
next
  case (Cons x xs)
  obtain r where 1: "evC (env0(v \<mapsto> x)) = (r, env0(v \<mapsto> x))"
    using Cons.prems(1) by (metis prod.collapse)
  obtain r' where 3: "evS (env0(v \<mapsto> x)) = (r', env0(v \<mapsto> x))"
    using Cons.prems(2) by (metis prod.collapse)
  have 2: "agree {v, a} env (env0(v \<mapsto> x))" using Cons.prems(3) by (simp add: agree_upd)
  have 4: "\<And>y. agree {v, a} env (env0(v \<mapsto> x, a \<mapsto> y))" using 2 by (simp add: agree_upd)
  note IH = Cons.IH [OF Cons.prems(1) Cons.prems(2)]
  show ?case
  proof (cases r)
    case (Inl e)
    then show ?thesis using 1 2 by (simp del: fun_upd_apply)
  next
    case (Inr c)
    show ?thesis
    proof (cases r')
      case (Inl e)
      then show ?thesis using 1 2 3 Inr IH [OF 2] by (simp del: fun_upd_apply)
    next
      case Inr2: (Inr acc)
      then show ?thesis using 1 2 3 Inr IH [OF 2] IH [OF 4] by (simp del: fun_upd_apply)
    qed
  qed
qed

lemma comprehensionTry_agree:
  assumes "\<And>e. snd (evI e) = e" "\<And>e. snd (evC e) = e" "\<And>e. snd (evS e) = e" "\<And>e. snd (evR e) = e"
  shows "agree {v, a} env (snd (comprehensionTry evI evC evS evR v a items env))"
proof -
  obtain r where 1: "evI env = (r, env)" using assms(1) by (metis prod.collapse)
  show ?thesis
  proof (cases r)
    case (Inl e)
    then show ?thesis using 1 by (simp add: comprehensionTry_def agree_refl)
  next
    case (Inr acc)
    let ?l = "comprehensionLoop evC evS v a items (env(a \<mapsto> acc))"
    have 2: "agree {v, a} env (snd ?l)"
      using comprehensionLoop_agree [OF assms(2) assms(3) agree_upd [OF agree_refl]] by simp
    obtain u env2 where 3: "?l = (u, env2)" by (cases ?l)
    obtain r2 where 4: "evR env2 = (r2, env2)" using assms(4) by (metis prod.collapse)
    show ?thesis using 1 Inr 2 3 4 by (cases u) (simp_all add: comprehensionTry_def del: fun_upd_apply)
  qed
qed

lemma evaluate_Call_macro:
  "evaluate h (Call (Some t) functionName args True) env =
     (case evaluate h t env of
        (Inl err, env1) \<Rightarrow> (Inl err, env1)
      | (Inr target, env1) \<Rightarrow>
          (case args of
             [] \<Rightarrow> (Inl (EvaluationError (''Macro '' @ functionName @ '' requires arguments'')), env1)
           | firstArg # rest \<Rightarrow>
               (case firstArg of
                  Identifier variableName \<Rightarrow>
                    (case rest of
                       [] \<Rightarrow>
                         (Inl (EvaluationError
                            (''Macro '' @ functionName @ '' requires an expression argument'')),
                          env1)
                     | macroExpr # others \<Rightarrow>
                         evaluateMacro (evaluate h macroExpr) target functionName variableName env1)
                | _ \<Rightarrow>
                    (Inl (EvaluationError
                       (''First argument to macro '' @ functionName @ '' must be a variable name'')),
                     env1))))"
  by (simp split: prod.splits sum.splits list.splits expr.splits)

lemma evaluate_Call_regular:
  "\<not> (isMacro \<and> targetExpr \<noteq> None) \<Longrightarrow>
   evaluate h (Call targetExpr functionName args isMacro) env =
     (case evaluateAll (evaluate h) args env of
        (Inl err, env1) \<Rightarrow> (Inl err, env1)
      | (Inr vs, env1) \<Rightarrow>
          (case targetExpr of
             Some t \<Rightarrow>
               (case evaluate h t env1 of
                  (Inl err, env2) \<Rightarrow> (Inl err, env2)
                | (Inr target, env2) \<Rightarrow> (callMethod h target functionName vs, env2))
           | None \<Rightarrow> (callFunction h functionName vs, env1)))"
  by (cases isMacro; cases targetExpr) (auto split: prod.splits sum.splits)


lemma evaluate_env: "snd (evaluate h e env) = env"
proof (induction e arbitrary: env)
  case (Literal v t)
  then show ?case by simp
next
  case (Identifier name)
  then show ?case by (simp split: option.splits)
next
  case (Select operand field isTest)
  show ?case
  proof (cases operand)
    case None
    then show ?thesis by simp
  next
    case (Some e)
    then have "snd (evaluate h e env) = env" using Select by simp
    then obtain r where "evaluate h e env = (r, env)" by (metis prod.collapse)
    then show ?thesis using Some by (cases r) simp_all
  qed
next
  case (Index e1 e2)
  obtain r1 where 1: "evaluate h e1 env = (r1, env)" using Index(1) by (metis prod.collapse)
  obtain r2 where 2: "evaluate h e2 env = (r2, env)" using Index(2) by (metis prod.collapse)
  show ?case using 1 2 by (cases r1; cases r2) simp_all
next
  case (Call targetExpr functionName args isMacro)
  have args: "snd (evaluateAll (evaluate h) args env) = env"
    using Call(2) by (simp add: evaluateAll_env)
  then obtain rs where rs: "evaluateAll (evaluate h) args env = (rs, env)"
    by (metis prod.collapse)
  show ?case
  proof (cases "isMacro \<and> targetExpr \<noteq> None")
    case False
    show ?thesis
    proof (cases targetExpr)
      case None
      then show ?thesis using rs False
        by (cases rs) (simp_all add: evaluate_Call_regular del: evaluate.simps)
    next
      case (Some t)
      have "snd (evaluate h t env) = env" using Call(1) Some by simp
      then obtain r where r: "evaluate h t env = (r, env)" by (metis prod.collapse)
      show ?thesis using Some rs r False
        by (cases rs; cases r) (simp_all add: evaluate_Call_regular del: evaluate.simps)
    qed
  next
    case True
    then obtain t where Some: "targetExpr = Some t" and isMacro: "isMacro" by auto
    have "snd (evaluate h t env) = env" using Call(1) Some by simp
    then obtain r where r: "evaluate h t env = (r, env)" by (metis prod.collapse)
    have body: "\<And>b v. b \<in> set args \<Longrightarrow>
        snd (evaluateMacro (evaluate h b) v functionName variableName env) = env"
      for variableName
      by (rule evaluateMacro_env) (simp add: Call(2))
    show ?thesis
      using Some isMacro r body
      by (simp add: evaluate_Call_macro del: evaluate.simps
            split: sum.splits list.splits expr.splits)
  qed
next
  case (ListExpression elements)
  have "snd (evaluateAll (evaluate h) elements env) = env"
    using ListExpression by (simp add: evaluateAll_env)
  then obtain rs where "evaluateAll (evaluate h) elements env = (rs, env)"
    by (metis prod.collapse)
  then show ?case by (cases rs) simp_all
next
  case (MapExpression entries)
  have "snd (visitMapEntries h (evaluate h) entries [] env) = env"
  proof (rule visitMapEntries_env)
    fix x e assume "x \<in> set entries"
    then show "snd (evaluate h (fst x) e) = e"
      using MapExpression(1) [of x "fst x" e] by (simp add: Basic_BNFs.fsts.intros)
  next
    fix x e assume "x \<in> set entries"
    then show "snd (evaluate h (snd x) e) = e"
      using MapExpression(2) [of x "snd x" e] by (simp add: Basic_BNFs.snds.intros)
  qed
  then show ?case by simp
next
  case (Struct typeName fieldInits)
  have "snd (visitStructFields (evaluate h) fieldInits [] env) = env"
  proof (rule visitStructFields_env)
    fix x e assume "x \<in> set fieldInits"
    then show "snd (evaluate h (snd x) e) = e"
      using Struct [of x "snd x" e] by (simp add: Basic_BNFs.snds.intros)
  qed
  then show ?case by simp
next
  case (Comprehension variable rangeExpr accumulator initializer condition step result)
  obtain r where r: "evaluate h rangeExpr env = (r, env)"
    using Comprehension(1) by (metis prod.collapse)
  show ?case
  proof (cases r)
    case (Inl err)
    then show ?thesis using r by simp
  next
    case (Inr rv)
    show ?thesis
    proof (cases "\<exists>items. rv = VList items")
      case False
      then show ?thesis using r Inr by (cases rv) simp_all
    next
      case True
      then obtain items where items: "rv = VList items" by blast
      let ?t = "comprehensionTry (evaluate h initializer) (evaluate h condition) (evaluate h step)
                   (evaluate h result) variable accumulator items env"
      have "agree {variable, accumulator} env (snd ?t)"
        by (rule comprehensionTry_agree) (simp_all add: Comprehension)
      then have "restore accumulator (env accumulator) (restore variable (env variable) (snd ?t)) = env"
        by (rule restore2_agree)
      then show ?thesis using r Inr items by (simp add: Let_def split_beta)
    qed
  qed
next
  case (Unary op e)
  obtain r where "evaluate h e env = (r, env)" using Unary by (metis prod.collapse)
  then show ?case by (cases r) simp_all
next
  case (Binary op e1 e2)
  obtain r1 where 1: "evaluate h e1 env = (r1, env)" using Binary(1) by (metis prod.collapse)
  obtain r2 where 2: "evaluate h e2 env = (r2, env)" using Binary(2) by (metis prod.collapse)
  show ?case using 1 2 by (cases r1; cases r2) simp_all
next
  case (Conditional c e1 e2)
  obtain r where "evaluate h c env = (r, env)" using Conditional(1) by (metis prod.collapse)
  then show ?case using Conditional(2,3) by (cases r) simp_all
qed

subsection \<open>Results without the variables\<close>

text \<open>
  Since evaluation hands the variables back as it found them, the result of an operator
  can be read off the results of its operands, all in the same variables.
\<close>

lemma evaluate_fst: "evaluate h e env = (fst (evaluate h e env), env)"
  using evaluate_env [of h e env] by (metis prod.collapse)

lemma evaluate_and:
  "fst (evaluate h (Binary LOGICAL_AND l r) env) =
     (case fst (evaluate h l env) of
        Inl e \<Rightarrow> Inl e
      | Inr lv \<Rightarrow>
          if lv \<noteq> VBool True then Inr (VBool False)
          else (case fst (evaluate h r env) of
                  Inl e \<Rightarrow> Inl e
                | Inr rv \<Rightarrow> Inr (VBool (rv = VBool True))))"
proof -
  obtain a where a: "evaluate h l env = (a, env)" using evaluate_fst by blast
  obtain b where b: "evaluate h r env = (b, env)" using evaluate_fst by blast
  show ?thesis
    apply (subst evaluate.simps)
    apply (simp only: a b prod.case fst_conv if_True)
    apply (cases a; cases b)
    apply simp_all
    done
qed

lemma evaluate_or:
  "fst (evaluate h (Binary LOGICAL_OR l r) env) =
     (case fst (evaluate h l env) of
        Inl e \<Rightarrow> Inl e
      | Inr lv \<Rightarrow>
          if lv = VBool True then Inr (VBool True)
          else (case fst (evaluate h r env) of
                  Inl e \<Rightarrow> Inl e
                | Inr rv \<Rightarrow> Inr (VBool (rv = VBool True))))"
proof -
  obtain a where a: "evaluate h l env = (a, env)" using evaluate_fst by blast
  obtain b where b: "evaluate h r env = (b, env)" using evaluate_fst by blast
  show ?thesis
    apply (subst evaluate.simps)
    apply (simp only: a b prod.case fst_conv binaryOp.distinct if_True if_False)
    apply (cases a; cases b)
    apply simp_all
    done
qed






subsection \<open>The loop of existsOne\<close>

lemma agree_upd_eq: "agree {v} env env0 \<Longrightarrow> env0(v \<mapsto> x) = env(v \<mapsto> x)"
  by (auto simp: agree_def fun_eq_iff)

lemma macroExistsOne_short:
  assumes pres: "\<And>e. snd (ev e) = e"
    and vals: "\<And>x. x \<in> set pre \<Longrightarrow> fst (ev (env(v \<mapsto> x))) = Inr (p x)"
  shows "agree {v} env env0 \<Longrightarrow> count \<le> 1 \<Longrightarrow>
     2 \<le> count + length (filter (\<lambda>x. p x = VBool True) pre) \<Longrightarrow>
     fst (macroExistsOne ev v (pre @ rest) count env0) = Inr (VBool False)"
  using vals
proof (induction pre arbitrary: env0 count)
  case Nil
  then show ?case by simp
next
  case (Cons x xs)
  have e: "env0(v \<mapsto> x) = env(v \<mapsto> x)" using Cons.prems(1) by (rule agree_upd_eq)
  have "fst (ev (env(v \<mapsto> x))) = Inr (p x)" using Cons.prems(4) by (simp del: fun_upd_apply)
  then have 1: "ev (env0(v \<mapsto> x)) = (Inr (p x), env(v \<mapsto> x))"
    using pres [of "env(v \<mapsto> x)"] e by (metis prod.collapse)
  have 2: "agree {v} env (env(v \<mapsto> x))" by (simp add: agree_upd agree_refl)
  have 3: "\<And>y. y \<in> set xs \<Longrightarrow> fst (ev (env(v \<mapsto> y))) = Inr (p y)"
    using Cons.prems(4) by (simp del: fun_upd_apply)
  show ?case
  proof (cases "p x = VBool True")
    case True
    show ?thesis
    proof (cases "count = 0")
      case True2: True
      have "fst (macroExistsOne ev v (xs @ rest) 1 (env(v \<mapsto> x))) = Inr (VBool False)"
        using Cons.IH [OF 2 _ _ 3, of 1] Cons.prems(3) True True2 by (simp del: fun_upd_apply)
      then show ?thesis using 1 True True2 by (simp del: fun_upd_apply)
    next
      case False
      then show ?thesis using 1 True by (simp del: fun_upd_apply)
    qed
  next
    case False
    have "fst (macroExistsOne ev v (xs @ rest) count (env(v \<mapsto> x))) = Inr (VBool False)"
      using Cons.IH [OF 2 Cons.prems(2) _ 3] Cons.prems(3) False by (simp del: fun_upd_apply)
    then show ?thesis using 1 False by (simp del: fun_upd_apply)
  qed
qed

lemma macroExistsOne_count:
  assumes pres: "\<And>e. snd (ev e) = e"
    and vals: "\<And>x. x \<in> set items \<Longrightarrow> fst (ev (env(v \<mapsto> x))) = Inr (p x)"
  shows "agree {v} env env0 \<Longrightarrow> count \<le> 1 \<Longrightarrow>
     fst (macroExistsOne ev v items count env0) =
       Inr (VBool (count + length (filter (\<lambda>x. p x = VBool True) items) = 1))"
  using vals
proof (induction items arbitrary: env0 count)
  case Nil
  then show ?case by simp
next
  case (Cons x xs)
  have e: "env0(v \<mapsto> x) = env(v \<mapsto> x)" using Cons.prems(1) by (rule agree_upd_eq)
  have "fst (ev (env(v \<mapsto> x))) = Inr (p x)" using Cons.prems(3) by (simp del: fun_upd_apply)
  then have 1: "ev (env0(v \<mapsto> x)) = (Inr (p x), env(v \<mapsto> x))"
    using pres [of "env(v \<mapsto> x)"] e by (metis prod.collapse)
  have 2: "agree {v} env (env(v \<mapsto> x))" by (simp add: agree_upd agree_refl)
  have 3: "\<And>y. y \<in> set xs \<Longrightarrow> fst (ev (env(v \<mapsto> y))) = Inr (p y)"
    using Cons.prems(3) by (simp del: fun_upd_apply)
  show ?case
  proof (cases "p x = VBool True")
    case True
    show ?thesis
    proof (cases "count = 0")
      case True2: True
      have "fst (macroExistsOne ev v xs 1 (env(v \<mapsto> x))) =
          Inr (VBool (1 + length (filter (\<lambda>x. p x = VBool True) xs) = 1))"
        using Cons.IH [OF 2 _ 3, of 1] by (simp del: fun_upd_apply)
      then show ?thesis using 1 True True2 by (simp del: fun_upd_apply)
    next
      case False
      then show ?thesis using 1 True by (simp del: fun_upd_apply)
    qed
  next
    case False
    have "fst (macroExistsOne ev v xs count (env(v \<mapsto> x))) =
          Inr (VBool (count + length (filter (\<lambda>x. p x = VBool True) xs) = 1))"
      using Cons.IH [OF 2 Cons.prems(2) 3] by (simp del: fun_upd_apply)
    then show ?thesis using 1 False by (simp del: fun_upd_apply)
  qed
qed

lemma evaluateMacro_existsOne:
  "fst (evaluateMacro ev (VList items) ''existsOne'' v env) =
     fst (macroExistsOne ev v items 0 env)"
  by (simp add: evaluateMacro_def Let_def split_beta)

lemma evaluate_macro_call:
  "fst (evaluate h (Call (Some t) f [Identifier v, body] True) env) =
     (case fst (evaluate h t env) of
        Inl e \<Rightarrow> Inl e
      | Inr target \<Rightarrow> fst (evaluateMacro (evaluate h body) target f v env))"
proof -
  obtain a where a: "evaluate h t env = (a, env)" using evaluate_fst by blast
  show ?thesis
    by (cases a) (simp_all add: evaluate_Call_macro a del: evaluate.simps)
qed

subsection \<open>Deep equality\<close>






subsection \<open>The comparator\<close>




subsection \<open>Map literals\<close>








section \<open>Properties of the lexer\<close>

lemma posLe_refl [simp]: "posLe p p"
  by (simp add: posLe_def)

lemma posLe_trans: "posLe p q \<Longrightarrow> posLe q r \<Longrightarrow> posLe p r"
  by (auto simp: posLe_def)

lemma advanced_refl [simp]: "advanced lx lx"
  by (simp add: advanced_def)

lemma advanced_trans: "advanced a b \<Longrightarrow> advanced b c \<Longrightarrow> advanced a c"
  by (auto simp: advanced_def intro: posLe_trans)

lemma advanced_step: "advanced lx (step lx)"
  by (simp add: advanced_def step_def Let_def posLe_def lexPos_def oneBased_def)

lemma advanced_step': "advanced a lx \<Longrightarrow> advanced a (step lx)"
  using advanced_step advanced_trans by blast

lemma advanced_forward: "advanced lx (forward n lx)"
proof (induction n)
  case 0
  then show ?case by (simp add: forward_def)
next
  case (Suc n)
  then show ?case using advanced_step' by (simp add: forward_def)
qed

lemma advanced_forward': "advanced a lx \<Longrightarrow> advanced a (forward n lx)"
  using advanced_forward advanced_trans by blast

lemma advanced_stepWhile: "advanced lx (stepWhile p lx)"
proof (induction p lx rule: stepWhile.induct)
  case (1 p lx)
  show ?case
  proof (cases "position lx < length (input lx) \<and> p (input lx ! position lx)")
    case True
    then have "advanced (step lx) (stepWhile p (step lx))" using 1 by simp
    then have "advanced lx (stepWhile p (step lx))" using advanced_step advanced_trans by blast
    then show ?thesis using True by (subst stepWhile.simps) simp
  next
    case False
    then show ?thesis by (subst stepWhile.simps) auto
  qed
qed

lemma advanced_stepWhile': "advanced a lx \<Longrightarrow> advanced a (stepWhile p lx)"
  using advanced_stepWhile advanced_trans by blast

lemma quotedLoop_advanced:
  "quotedLoop ty msg quote isRaw line0 column0 offset lx = Inr (t, lx') \<Longrightarrow>
     advanced lx lx' \<and> tokLine t = line0 \<and> tokColumn t = column0"
proof (induction ty msg quote isRaw line0 column0 offset lx rule: quotedLoop.induct)
  case (1 ty msg quote isRaw line0 column0 offset lx)
  show ?case
  proof (cases "position lx < length (input lx)")
    case False
    then show ?thesis using "1.prems" by (subst (asm) quotedLoop.simps) simp
  next
    case True
    let ?ch = "input lx ! position lx"
    show ?thesis
    proof (cases "Some ?ch = quote")
      case q: True
      then show ?thesis
        using "1.prems" True advanced_step [of lx]
        by (subst (asm) quotedLoop.simps) (auto simp: Let_def)
    next
      case nq: False
      show ?thesis
      proof (cases "?ch = CHR 0x5C \<and> \<not> isRaw \<and> position lx + 1 < length (input lx)")
        case esc: True
        have "quotedLoop ty msg quote isRaw line0 column0 offset (forward 2 lx) = Inr (t, lx')"
          using "1.prems" True nq esc by (subst (asm) quotedLoop.simps) (simp add: Let_def)
        then have "advanced (forward 2 lx) lx' \<and> tokLine t = line0 \<and> tokColumn t = column0"
          using "1.IH"(1) [OF True refl nq esc] by simp
        then show ?thesis using advanced_forward [of lx 2] advanced_trans by blast
      next
        case nesc: False
        have "quotedLoop ty msg quote isRaw line0 column0 offset (step lx) = Inr (t, lx')"
          using "1.prems" True nq nesc by (subst (asm) quotedLoop.simps) (auto simp: Let_def)
        then have "advanced (step lx) lx' \<and> tokLine t = line0 \<and> tokColumn t = column0"
          using "1.IH"(2) [OF True refl nq nesc] by simp
        then show ?thesis using advanced_step [of lx] advanced_trans by blast
      qed
    qed
  qed
qed

lemma tripleLoop_advanced:
  "tripleLoop quote line0 column0 offset lx = Inr (t, lx') \<Longrightarrow>
     advanced lx lx' \<and> tokLine t = line0 \<and> tokColumn t = column0"
proof (induction quote line0 column0 offset lx rule: tripleLoop.induct)
  case (1 quote line0 column0 offset lx)
  show ?case
  proof (cases "position lx + 2 < length (input lx)")
    case False
    then show ?thesis using "1.prems" by (subst (asm) tripleLoop.simps) simp
  next
    case True
    show ?thesis
    proof (cases "input lx ! position lx = quote \<and> input lx ! (position lx + 1) = quote \<and>
            input lx ! (position lx + 2) = quote")
      case q: True
      then show ?thesis
        using "1.prems" True advanced_forward [of lx 3]
        by (subst (asm) tripleLoop.simps) (auto simp: Let_def)
    next
      case nq: False
      have "tripleLoop quote line0 column0 offset (step lx) = Inr (t, lx')"
        using "1.prems" True nq by (subst (asm) tripleLoop.simps) (auto simp: Let_def)
      then have "advanced (step lx) lx' \<and> tokLine t = line0 \<and> tokColumn t = column0"
        using "1.IH" [OF True nq] by simp
      then show ?thesis using advanced_step [of lx] advanced_trans by blast
    qed
  qed
qed


lemma scanString_advanced:
  "scanString line0 column0 offset lx = Inr (t, lx') \<Longrightarrow>
     advanced lx lx' \<and> tokLine t = line0 \<and> tokColumn t = column0"
proof -
  assume a: "scanString line0 column0 offset lx = Inr (t, lx')"
  let ?isRaw = "charAt lx (position lx) = Some CHR ''r'' \<or> charAt lx (position lx) = Some CHR ''R''"
  let ?lx1 = "if ?isRaw then step lx else lx"
  have 1: "advanced lx ?lx1" using advanced_step by simp
  from a consider
      (triple) "tripleLoop (input ?lx1 ! position ?lx1) line0 column0 offset (forward 3 ?lx1) = Inr (t, lx')"
    | (plain) "quotedLoop TK_STRING ''Unterminated string'' (charAt ?lx1 (position ?lx1)) ?isRaw
                line0 column0 offset (step ?lx1) = Inr (t, lx')"
    unfolding scanString_def Let_def by (auto split: if_splits)
  then show ?thesis
  proof cases
    case triple
    then have "advanced (forward 3 ?lx1) lx' \<and> tokLine t = line0 \<and> tokColumn t = column0"
      by (rule tripleLoop_advanced)
    then show ?thesis using 1 advanced_forward' [OF 1, of 3] advanced_trans by blast
  next
    case plain
    then have "advanced (step ?lx1) lx' \<and> tokLine t = line0 \<and> tokColumn t = column0"
      by (rule quotedLoop_advanced)
    then show ?thesis using advanced_step' [OF 1] advanced_trans by blast
  qed
qed

lemma scanBytes_advanced:
  "scanBytes line0 column0 offset lx = Inr (t, lx') \<Longrightarrow>
     advanced lx lx' \<and> tokLine t = line0 \<and> tokColumn t = column0"
proof -
  assume "scanBytes line0 column0 offset lx = Inr (t, lx')"
  then have "advanced (step (step lx)) lx' \<and> tokLine t = line0 \<and> tokColumn t = column0"
    unfolding scanBytes_def Let_def by (rule quotedLoop_advanced)
  then show ?thesis using advanced_step' [OF advanced_step] advanced_trans by blast
qed

lemma scanNumber_advanced:
  "scanNumber line0 column0 offset lx = (t, lx') \<Longrightarrow>
     advanced lx lx' \<and> tokLine t = line0 \<and> tokColumn t = column0"
  unfolding scanNumber_def Let_def
  by (auto split: if_splits
        intro!: advanced_step' advanced_stepWhile' advanced_forward')

lemma scanIdentifier_advanced:
  "scanIdentifier line0 column0 offset lx = (t, lx') \<Longrightarrow>
     advanced lx lx' \<and> tokLine t = line0 \<and> tokColumn t = column0"
  unfolding scanIdentifier_def Let_def
  by (auto intro!: advanced_stepWhile')

lemma token_advanced:
  assumes "token lx0 = Inr (t, lx')"
  shows "advanced lx0 (whitespace lx0) \<and> tokPos t = lexPos (whitespace lx0) \<and>
         advanced (whitespace lx0) lx'"
proof -
  let ?lx = "whitespace lx0"
  have w: "advanced lx0 ?lx" by (simp add: whitespace_def advanced_stepWhile)
  have "tokPos t = lexPos ?lx \<and> advanced ?lx lx'"
  proof (cases "position ?lx \<ge> length (input ?lx)")
    case True
    then show ?thesis using assms by (auto simp: token_def Let_def tokPos_def lexPos_def)
  next
    case False
    let ?ch = "input ?lx ! position ?lx"
    show ?thesis
    proof (cases "singleCharToken ?ch")
      case (Some ty)
      then show ?thesis
        using assms False advanced_step [of ?lx]
        by (auto simp: token_def Let_def tokPos_def lexPos_def)
    next
      case None
      have s: "advanced ?lx (step ?lx)" by (rule advanced_step)
      have f: "advanced ?lx (forward 2 ?lx)" by (rule advanced_forward)
      show ?thesis
        using assms False None s f
          scanString_advanced [of "line ?lx" "column ?lx" "position ?lx" ?lx t lx']
          scanBytes_advanced [of "line ?lx" "column ?lx" "position ?lx" ?lx t lx']
          scanNumber_advanced [of "line ?lx" "column ?lx" "position ?lx" ?lx t lx']
          scanIdentifier_advanced [of "line ?lx" "column ?lx" "position ?lx" ?lx t lx']
        unfolding token_def Let_def tokPos_def lexPos_def
        by (simp split: if_splits) (auto simp: tokPos_def lexPos_def)
    qed
  qed
  then show ?thesis using w by simp
qed


lemma scan_positions:
  "sorted_wrt posLe (map tokPos (scan n lx)) \<and>
   (\<forall>t \<in> set (scan n lx).
      posLe (lexPos lx) (tokPos t) \<and> (oneBased (lexPos lx) \<longrightarrow> oneBased (tokPos t)))"
proof (induction n arbitrary: lx)
  case 0
  then show ?case by simp
next
  case (Suc n)
  show ?case
  proof (cases "token lx")
    case (Inl e)
    then show ?thesis by simp
  next
    case (Inr r)
    obtain t lx1 where r: "r = (t, lx1)" by (cases r)
    let ?w = "whitespace lx"
    have adv: "advanced lx ?w" "tokPos t = lexPos ?w" "advanced ?w lx1"
      using token_advanced [of lx t lx1] Inr r by simp_all
    have IH: "sorted_wrt posLe (map tokPos (scan n lx1))"
      "\<And>t'. t' \<in> set (scan n lx1) \<Longrightarrow>
          posLe (lexPos lx1) (tokPos t') \<and> (oneBased (lexPos lx1) \<longrightarrow> oneBased (tokPos t'))"
      using Suc [of lx1] by simp_all
    have 1: "posLe (lexPos lx) (tokPos t)" using adv by (simp add: advanced_def)
    have 2: "oneBased (lexPos lx) \<longrightarrow> oneBased (tokPos t)" using adv by (simp add: advanced_def)
    have 3: "posLe (tokPos t) (lexPos lx1)" using adv by (simp add: advanced_def)
    have 4: "oneBased (tokPos t) \<longrightarrow> oneBased (lexPos lx1)" using adv by (simp add: advanced_def)
    have 5: "posLe (tokPos t) (tokPos t')" if "t' \<in> set (scan n lx1)" for t'
      using IH(2) [OF that] 3 posLe_trans by blast
    have 6: "posLe (lexPos lx) (tokPos t')" if "t' \<in> set (scan n lx1)" for t'
      using 5 [OF that] 1 posLe_trans by blast
    have 7: "oneBased (lexPos lx) \<longrightarrow> oneBased (tokPos t')" if "t' \<in> set (scan n lx1)" for t'
      using IH(2) [OF that] 2 4 by blast
    show ?thesis using Inr r IH(1) 1 2 5 6 7 by auto
  qed
qed

lemma posLe_line: "posLe (tokPos a) (tokPos b) \<Longrightarrow> tokLine a \<le> tokLine b"
  by (auto simp: posLe_def tokPos_def)

lemma sorted_lines: "sorted_wrt posLe (map tokPos ts) \<Longrightarrow> sorted (map tokLine ts)"
  by (induction ts) (auto simp: posLe_line)


lemma scan_threeLines:
  "scan 5 (newLexer threeLines) =
     [Token TK_IDENTIFIER ''a'' 1 1, Token TK_IDENTIFIER ''b'' 2 1, Token TK_IDENTIFIER ''c'' 3 1,
      Token TK_EOF [] 3 2, Token TK_EOF [] 3 2]"
  by code_simp

subsection \<open>Progress of the lexer\<close>

lemma position_forward_le: "position lx \<le> position (forward n lx)"
proof (induction n)
  case 0
  then show ?case by (simp add: forward_def)
next
  case (Suc n)
  then show ?case using position_step_le [of "forward n lx"] by (simp add: forward_def)
qed

lemma position_forward3: "position lx < length (input lx) \<Longrightarrow> position lx < position (forward 3 lx)"
  using position_step [of lx] position_step_le [of "step lx"] position_step_le [of "step (step lx)"]
  by (simp add: forward_def numeral_3_eq_3)

lemma position_stepWhile_le: "position lx \<le> position (stepWhile p lx)"
proof (induction p lx rule: stepWhile.induct)
  case (1 p lx)
  show ?case
  proof (cases "position lx < length (input lx) \<and> p (input lx ! position lx)")
    case True
    then have "position (step lx) \<le> position (stepWhile p (step lx))" using 1 by simp
    then have "position lx \<le> position (stepWhile p (step lx))"
      using position_step_le [of lx] by simp
    then show ?thesis using True by (subst stepWhile.simps) simp
  next
    case False
    then show ?thesis by (subst stepWhile.simps) auto
  qed
qed

lemma position_stepWhile_less:
  "position lx < length (input lx) \<Longrightarrow> p (input lx ! position lx) \<Longrightarrow>
   position lx < position (stepWhile p lx)"
  using position_step [of lx] position_stepWhile_le [of "step lx" p]
  by (subst stepWhile.simps) simp

lemma quotedLoop_position:
  "quotedLoop ty msg quote isRaw line0 column0 offset lx = Inr (t, lx') \<Longrightarrow>
     position lx \<le> position lx' \<and> tokType t = ty"
proof (induction ty msg quote isRaw line0 column0 offset lx rule: quotedLoop.induct)
  case (1 ty msg quote isRaw line0 column0 offset lx)
  show ?case
  proof (cases "position lx < length (input lx)")
    case False
    then show ?thesis using "1.prems" by (subst (asm) quotedLoop.simps) simp
  next
    case True
    let ?ch = "input lx ! position lx"
    show ?thesis
    proof (cases "Some ?ch = quote")
      case q: True
      then show ?thesis
        using "1.prems" True position_step_le [of lx]
        by (subst (asm) quotedLoop.simps) (auto simp: Let_def)
    next
      case nq: False
      show ?thesis
      proof (cases "?ch = CHR 0x5C \<and> \<not> isRaw \<and> position lx + 1 < length (input lx)")
        case esc: True
        have "quotedLoop ty msg quote isRaw line0 column0 offset (forward 2 lx) = Inr (t, lx')"
          using "1.prems" True nq esc by (subst (asm) quotedLoop.simps) (simp add: Let_def)
        then have "position (forward 2 lx) \<le> position lx' \<and> tokType t = ty"
          using "1.IH"(1) [OF True refl nq esc] by simp
        then show ?thesis using position_forward_le [of lx 2] by simp
      next
        case nesc: False
        have "quotedLoop ty msg quote isRaw line0 column0 offset (step lx) = Inr (t, lx')"
          using "1.prems" True nq nesc by (subst (asm) quotedLoop.simps) (auto simp: Let_def)
        then have "position (step lx) \<le> position lx' \<and> tokType t = ty"
          using "1.IH"(2) [OF True refl nq nesc] by simp
        then show ?thesis using position_step_le [of lx] by simp
      qed
    qed
  qed
qed

lemma tripleLoop_position:
  "tripleLoop quote line0 column0 offset lx = Inr (t, lx') \<Longrightarrow> position lx \<le> position lx'"
proof (induction quote line0 column0 offset lx rule: tripleLoop.induct)
  case (1 quote line0 column0 offset lx)
  show ?case
  proof (cases "position lx + 2 < length (input lx)")
    case False
    then show ?thesis using "1.prems" by (subst (asm) tripleLoop.simps) simp
  next
    case True
    show ?thesis
    proof (cases "input lx ! position lx = quote \<and> input lx ! (position lx + 1) = quote \<and>
            input lx ! (position lx + 2) = quote")
      case q: True
      then show ?thesis
        using "1.prems" True position_forward_le [of lx 3]
        by (subst (asm) tripleLoop.simps) (auto simp: Let_def)
    next
      case nq: False
      have "tripleLoop quote line0 column0 offset (step lx) = Inr (t, lx')"
        using "1.prems" True nq by (subst (asm) tripleLoop.simps) (auto simp: Let_def)
      then have "position (step lx) \<le> position lx'"
        using "1.IH" [OF True nq] by simp
      then show ?thesis using position_step_le [of lx] by simp
    qed
  qed
qed

lemma scanString_position:
  assumes a: "scanString line0 column0 offset lx = Inr (t, lx')"
    and l: "position lx < length (input lx)"
  shows "position lx < position lx'"
proof -
  let ?isRaw = "charAt lx (position lx) = Some CHR ''r'' \<or> charAt lx (position lx) = Some CHR ''R''"
  let ?lx1 = "if ?isRaw then step lx else lx"
  have 1: "position lx \<le> position ?lx1" using position_step_le by simp
  from a consider
      (triple) "position ?lx1 + 2 < length (input ?lx1)"
        "tripleLoop (input ?lx1 ! position ?lx1) line0 column0 offset (forward 3 ?lx1) = Inr (t, lx')"
    | (plain) "quotedLoop TK_STRING ''Unterminated string'' (charAt ?lx1 (position ?lx1)) ?isRaw
                line0 column0 offset (step ?lx1) = Inr (t, lx')"
    unfolding scanString_def Let_def by (auto split: if_splits)
  then show ?thesis
  proof cases
    case triple
    from triple(2) have "position (forward 3 ?lx1) \<le> position lx'"
      by (rule tripleLoop_position)
    moreover have "position ?lx1 < position (forward 3 ?lx1)"
      using triple(1) by (intro position_forward3) simp
    ultimately show ?thesis using 1 by simp
  next
    case plain
    then have 2: "position (step ?lx1) \<le> position lx'"
      using quotedLoop_position by blast
    show ?thesis
    proof (cases ?isRaw)
      case True
      then have "position lx < position ?lx1" using position_step [OF l] by simp
      then show ?thesis using 2 position_step_le [of ?lx1] by simp
    next
      case False
      then have "position lx < position (step ?lx1)" using position_step [OF l] by simp
      then show ?thesis using 2 by simp
    qed
  qed
qed

lemma scanBytes_position:
  assumes a: "scanBytes line0 column0 offset lx = Inr (t, lx')"
    and l: "position lx < length (input lx)"
  shows "position lx < position lx'"
proof -
  from a have "position (step (step lx)) \<le> position lx'"
    unfolding scanBytes_def Let_def using quotedLoop_position by blast
  then show ?thesis using position_step [OF l] position_step_le [of "step lx"] by simp
qed

lemma position_le_step: "position a \<le> position x \<Longrightarrow> position a \<le> position (step x)"
  using position_step_le [of x] by simp

lemma position_le_stepWhile:
  "position a \<le> position x \<Longrightarrow> position a \<le> position (stepWhile p x)"
  using position_stepWhile_le [of x p] by simp

lemma scanNumber_hex:
  "scanNumber line0 column0 offset lx = (t, lx') \<Longrightarrow>
   charAt lx (position lx) = Some CHR ''0'' \<and> position lx + 1 < length (input lx) \<and>
     (input lx ! (position lx + 1) = CHR ''x'' \<or> input lx ! (position lx + 1) = CHR ''X'') \<Longrightarrow>
   position (forward 2 lx) \<le> position lx'"
  unfolding scanNumber_def Let_def
  by (auto split: if_splits intro!: position_le_step position_le_stepWhile)

lemma scanNumber_decimal:
  "scanNumber line0 column0 offset lx = (t, lx') \<Longrightarrow>
   \<not> (charAt lx (position lx) = Some CHR ''0'' \<and> position lx + 1 < length (input lx) \<and>
     (input lx ! (position lx + 1) = CHR ''x'' \<or> input lx ! (position lx + 1) = CHR ''X'')) \<Longrightarrow>
   position (stepWhile isDigit lx) \<le> position lx'"
  unfolding scanNumber_def Let_def
  by (auto split: if_splits intro!: position_le_step position_le_stepWhile)

lemma scanNumber_position:
  assumes a: "scanNumber line0 column0 offset lx = (t, lx')"
    and l: "position lx < length (input lx)" and d: "isDigit (input lx ! position lx)"
  shows "position lx < position lx'"
proof (cases "charAt lx (position lx) = Some CHR ''0'' \<and> position lx + 1 < length (input lx) \<and>
         (input lx ! (position lx + 1) = CHR ''x'' \<or> input lx ! (position lx + 1) = CHR ''X'')")
  case True
  from scanNumber_hex [OF a True] position_forward2 [OF l] show ?thesis by simp
next
  case False
  have "position lx < position (stepWhile isDigit lx)"
    using position_stepWhile_less [of lx isDigit] l d by simp
  with scanNumber_decimal [OF a False] show ?thesis by simp
qed

lemma scanIdentifier_position:
  assumes a: "scanIdentifier line0 column0 offset lx = (t, lx')"
    and l: "position lx < length (input lx)"
    and d: "isLetter (input lx ! position lx) \<or> input lx ! position lx = CHR ''_''"
  shows "position lx < position lx'"
proof -
  from a have "lx' = stepWhile (\<lambda>c. \<not> (\<not> isLetterOrDigit c \<and> c \<noteq> CHR ''_'')) lx"
    unfolding scanIdentifier_def Let_def by auto
  moreover have "\<not> (\<not> isLetterOrDigit (input lx ! position lx) \<and> input lx ! position lx \<noteq> CHR ''_'')"
    using d by (auto simp: isLetterOrDigit_def)
  ultimately show ?thesis
    using l position_stepWhile_less [of lx "\<lambda>c. \<not> (\<not> isLetterOrDigit c \<and> c \<noteq> CHR ''_'')"]
    by simp
qed

text \<open>
  A call of \<open>token\<close> never moves the position back, and a token other than the end of
  the input consumes at least one character.
\<close>

lemma token_position:
  assumes "token lx0 = Inr (t, lx')"
  shows "position lx0 \<le> position lx' \<and>
         (tokType t \<noteq> TK_EOF \<longrightarrow> position lx0 < position lx' \<and> position lx0 < length (input lx0))"
proof -
  let ?lx = "whitespace lx0"
  have w: "position lx0 \<le> position ?lx" by (simp add: whitespace_def position_stepWhile_le)
  have i: "input ?lx = input lx0" using token_advanced [OF assms] by (simp add: advanced_def)
  show ?thesis
  proof (cases "position ?lx \<ge> length (input ?lx)")
    case True
    then show ?thesis using assms w by (auto simp: token_def Let_def)
  next
    case False
    then have l: "position ?lx < length (input ?lx)" by simp
    let ?ch = "input ?lx ! position ?lx"
    have "position ?lx < position lx'"
    proof (cases "singleCharToken ?ch")
      case (Some ty)
      then show ?thesis
        using assms False position_step [OF l] by (auto simp: token_def Let_def)
    next
      case None
      have s: "position ?lx < position (step ?lx)" by (rule position_step [OF l])
      have f: "position ?lx < position (forward 2 ?lx)" by (rule position_forward2 [OF l])
      show ?thesis
        using assms False None s f
          scanString_position [of "line ?lx" "column ?lx" "position ?lx" ?lx t lx', OF _ l]
          scanBytes_position [of "line ?lx" "column ?lx" "position ?lx" ?lx t lx', OF _ l]
          scanNumber_position [of "line ?lx" "column ?lx" "position ?lx" ?lx t lx', OF _ l]
          scanIdentifier_position [of "line ?lx" "column ?lx" "position ?lx" ?lx t lx', OF _ l]
        unfolding token_def Let_def
        by (simp split: if_splits)
    qed
    then show ?thesis using w l i by simp
  qed
qed

section \<open>Properties of the parser\<close>

lemma andThen_returns_iff:
  "andThen m f = Some (Inr r) \<longleftrightarrow> (\<exists>x ps. m = Some (Inr (x, ps)) \<and> f x ps = Some (Inr r))"
  by (auto simp: andThen_def split: option.splits sum.splits)

lemma returns_iff: "returns x ps = Some (Inr r) \<longleftrightarrow> r = (x, ps)"
  by (auto simp: returns_def)

lemma raises_iff: "raises e \<noteq> Some (Inr r)"
  by (simp add: raises_def)

lemma expect_returns:
  "expect ty ps = Some (Inr (u, ps1)) \<longleftrightarrow> tokType (current ps) = ty \<and> advance ps = Some (Inr ((), ps1))"
  by (auto simp: expect_def raises_def)

lemma isStruct_returns:
  "isStruct ps = Some (Inr (b, ps1)) \<Longrightarrow> b = beginsWithField ps"
  by (auto simp: isStruct_def beginsWithField_def peekAhead_def andThen_returns_iff returns_iff
        raises_def split: if_splits sum.splits)

lemma beginsWithField_not_RBRACE:
  "tokType (current ps) = TK_RBRACE \<Longrightarrow> \<not> beginsWithField ps"
  by (simp add: beginsWithField_def)

lemma parseMapOrStructLiteral_returns:
  assumes "parseMapOrStructLiteral pe n typeName ps = Some (Inr (e, ps'))"
  shows "tokType (current ps) = TK_LBRACE \<and>
         (\<exists>ps1. advance ps = Some (Inr ((), ps1)) \<and>
            (if tokType (current ps1) = TK_RBRACE
             then e = (if typeName \<noteq> None then Struct typeName [] else MapExpression [])
             else if beginsWithField ps1 \<or> typeName \<noteq> None
                  then (\<exists>fieldInits. e = Struct typeName fieldInits)
                  else (\<exists>entries. e = MapExpression entries)))"
proof -
  from assms obtain u ps1 where
    e: "expect TK_LBRACE ps = Some (Inr (u, ps1))" and
    r: "(if tokType (current ps1) = TK_RBRACE then
         andThen (advance ps1) (\<lambda>_ ps2.
           if typeName \<noteq> None then returns (Struct typeName []) ps2
           else returns (MapExpression []) ps2)
       else
         andThen (isStruct ps1) (\<lambda>isStruct ps2.
           if isStruct \<or> typeName \<noteq> None then
             andThen (parseFieldInits pe n ps2) (\<lambda>fieldInits ps3.
               andThen
                 (if tokType (current ps3) = TK_COMMA then advance ps3 else returns () ps3)
                 (\<lambda>_ ps4.
                    andThen (expect TK_RBRACE ps4) (\<lambda>_ ps5.
                      returns (Struct typeName fieldInits) ps5)))
           else
             andThen (parseMapInits pe n ps2) (\<lambda>entries ps3.
               andThen
                 (if tokType (current ps3) = TK_COMMA then advance ps3 else returns () ps3)
                 (\<lambda>_ ps4.
                    andThen (expect TK_RBRACE ps4) (\<lambda>_ ps5.
                      returns (MapExpression entries) ps5))))) = Some (Inr (e, ps'))"
    unfolding parseMapOrStructLiteral_def andThen_returns_iff by blast
  from e have c: "tokType (current ps) = TK_LBRACE" and a: "advance ps = Some (Inr ((), ps1))"
    by (simp_all add: expect_returns)
  show ?thesis
  proof (cases "tokType (current ps1) = TK_RBRACE")
    case True
    with r have "e = (if typeName \<noteq> None then Struct typeName [] else MapExpression [])"
      by (auto simp: andThen_returns_iff returns_iff split: if_splits)
    with True c a show ?thesis by simp
  next
    case False
    with r obtain b ps2 where
      s: "isStruct ps1 = Some (Inr (b, ps2))" and
      r2: "(if b \<or> typeName \<noteq> None then
             andThen (parseFieldInits pe n ps2) (\<lambda>fieldInits ps3.
               andThen
                 (if tokType (current ps3) = TK_COMMA then advance ps3 else returns () ps3)
                 (\<lambda>_ ps4.
                    andThen (expect TK_RBRACE ps4) (\<lambda>_ ps5.
                      returns (Struct typeName fieldInits) ps5)))
           else
             andThen (parseMapInits pe n ps2) (\<lambda>entries ps3.
               andThen
                 (if tokType (current ps3) = TK_COMMA then advance ps3 else returns () ps3)
                 (\<lambda>_ ps4.
                    andThen (expect TK_RBRACE ps4) (\<lambda>_ ps5.
                      returns (MapExpression entries) ps5)))) = Some (Inr (e, ps'))"
      by (simp add: andThen_returns_iff) blast
    from isStruct_returns [OF s] have b: "b = beginsWithField ps1" .
    have "if beginsWithField ps1 \<or> typeName \<noteq> None
          then (\<exists>fieldInits. e = Struct typeName fieldInits)
          else (\<exists>entries. e = MapExpression entries)"
    proof (cases "b \<or> typeName \<noteq> None")
      case True
      with r2 have "\<exists>fieldInits. e = Struct typeName fieldInits"
        by (simp add: andThen_returns_iff returns_iff) blast
      with True b show ?thesis by simp
    next
      case False
      with r2 have "\<exists>entries. e = MapExpression entries"
        by (simp add: andThen_returns_iff returns_iff) blast
      with False b show ?thesis by simp
    qed
    with False c a show ?thesis by simp
  qed
qed

lemma parsePrimary_LBRACE:
  "tokType (current ps) = TK_LBRACE \<Longrightarrow>
   parsePrimary rt pe n ps = parseMapOrStructLiteral pe n None ps"
  by (simp add: parsePrimary_def isLiteralToken_def)

lemma parsePrimary_typed:
  "tokType (current ps) = TK_IDENTIFIER \<Longrightarrow> advance ps = Some (Inr ((), ps1)) \<Longrightarrow>
   tokType (current ps1) = TK_LBRACE \<Longrightarrow>
   parsePrimary rt pe n ps = parseMapOrStructLiteral pe n (Some (tokValue (current ps))) ps1"
  by (simp add: parsePrimary_def isLiteralToken_def andThen_def returns_def)

lemma parsePrimary_qualified:
  "tokType (current ps) = TK_IDENTIFIER \<Longrightarrow> advance ps = Some (Inr ((), ps1)) \<Longrightarrow>
   tokType (current ps1) = TK_DOT \<Longrightarrow> isQualifiedStructLiteral n ps1 = Some (Inr (True, ps2)) \<Longrightarrow>
   parseQualifiedIdent n (tokValue (current ps)) ps2 = Some (Inr (qualified, ps3)) \<Longrightarrow>
   parsePrimary rt pe n ps = parseMapOrStructLiteral pe n (Some qualified) ps3"
  by (simp add: parsePrimary_def isLiteralToken_def andThen_def returns_def)

lemma newParser_examples:
  "newParser ''{a:1}'' = Inr (exampleState ''{a:1}'' 1 [] (Token TK_LBRACE ''{'' 1 1))"
  "newParser mapExample = Inr (exampleState mapExample 1 [] (Token TK_LBRACE ''{'' 1 1))"
  "newParser ''Person{a:1}'' = Inr (exampleState ''Person{a:1}'' 6 [] (Token TK_IDENTIFIER ''Person'' 1 1))"
  "newParser ''{}'' = Inr (exampleState ''{}'' 1 [] (Token TK_LBRACE ''{'' 1 1))"
  "newParser ''Person{}'' = Inr (exampleState ''Person{}'' 6 [] (Token TK_IDENTIFIER ''Person'' 1 1))"
  "newParser ''a.b.C{}'' = Inr (exampleState ''a.b.C{}'' 1 [] (Token TK_IDENTIFIER ''a'' 1 1))"
  by code_simp+

lemma parse_examples:
  "parse exampleBuiltins 9 mapExample =
     Some (Inr (MapExpression [(Literal (VStr ''a'') STRING, Literal (VNum 1) INT_LIT)]))"
  "parse exampleBuiltins 9 ''{a:1}'' = Some (Inr (Struct None [(''a'', Literal (VNum 1) INT_LIT)]))"
  "parse exampleBuiltins 9 ''Person{a:1}'' =
     Some (Inr (Struct (Some ''Person'') [(''a'', Literal (VNum 1) INT_LIT)]))"
  "parse exampleBuiltins 9 ''{}'' = Some (Inr (MapExpression []))"
  "parse exampleBuiltins 9 ''Person{}'' = Some (Inr (Struct (Some ''Person'') []))"
  "parse exampleBuiltins 9 ''a.b.C{}'' = Some (Inr (Struct (Some ''a.b.C'') []))"
  by code_simp+

lemma struct_example:
  "parseMapOrStructLiteral (parseExpr exampleBuiltins 8) 8 None
     (exampleState ''{a:1}'' 1 [] (Token TK_LBRACE ''{'' 1 1)) =
   Some (Inr (Struct None [(''a'', Literal (VNum 1) INT_LIT)],
              exampleState ''{a:1}'' 5 [] (Token TK_EOF [] 1 6)))"
  "advance (exampleState ''{a:1}'' 1 [] (Token TK_LBRACE ''{'' 1 1)) =
   Some (Inr ((), exampleState ''{a:1}'' 2 [] (Token TK_IDENTIFIER ''a'' 1 2)))"
  by code_simp+

lemma map_example:
  "parseMapOrStructLiteral (parseExpr exampleBuiltins 8) 8 None
     (exampleState mapExample 1 [] (Token TK_LBRACE ''{'' 1 1)) =
   Some (Inr (MapExpression [(Literal (VStr ''a'') STRING, Literal (VNum 1) INT_LIT)],
              exampleState mapExample 7 [] (Token TK_EOF [] 1 8)))"
  "advance (exampleState mapExample 1 [] (Token TK_LBRACE ''{'' 1 1)) =
   Some (Inr ((), exampleState mapExample 4 [] (Token TK_STRING [CHR 0x22, CHR ''a'', CHR 0x22] 1 2)))"
  by code_simp+

lemma empty_example:
  "parseMapOrStructLiteral (parseExpr exampleBuiltins 8) 8 None
     (exampleState ''{}'' 1 [] (Token TK_LBRACE ''{'' 1 1)) =
   Some (Inr (MapExpression [], exampleState ''{}'' 2 [] (Token TK_EOF [] 1 3)))"
  "advance (exampleState ''{}'' 1 [] (Token TK_LBRACE ''{'' 1 1)) =
   Some (Inr ((), exampleState ''{}'' 2 [] (Token TK_RBRACE ''}'' 1 2)))"
  "parseMapOrStructLiteral (parseExpr exampleBuiltins 8) 8 (Some ''Person'')
     (exampleState ''Person{}'' 7 [] (Token TK_LBRACE ''{'' 1 7)) =
   Some (Inr (Struct (Some ''Person'') [], exampleState ''Person{}'' 8 [] (Token TK_EOF [] 1 9)))"
  "advance (exampleState ''Person{}'' 7 [] (Token TK_LBRACE ''{'' 1 7)) =
   Some (Inr ((), exampleState ''Person{}'' 8 [] (Token TK_RBRACE ''}'' 1 8)))"
  by code_simp+

lemma typed_example:
  "advance (exampleState ''Person{a:1}'' 6 [] (Token TK_IDENTIFIER ''Person'' 1 1)) =
   Some (Inr ((), exampleState ''Person{a:1}'' 7 [] (Token TK_LBRACE ''{'' 1 7)))"
  "parseMapOrStructLiteral (parseExpr exampleBuiltins 8) 8 (Some ''Person'')
     (exampleState ''Person{a:1}'' 7 [] (Token TK_LBRACE ''{'' 1 7)) =
   Some (Inr (Struct (Some ''Person'') [(''a'', Literal (VNum 1) INT_LIT)],
              exampleState ''Person{a:1}'' 11 [] (Token TK_EOF [] 1 12)))"
  by code_simp+

lemma qualified_example:
  "advance (exampleState ''a.b.C{}'' 1 [] (Token TK_IDENTIFIER ''a'' 1 1)) =
   Some (Inr ((), exampleState ''a.b.C{}'' 2 [] (Token TK_DOT ''.'' 1 2)))"
  "isQualifiedStructLiteral 8 (exampleState ''a.b.C{}'' 2 [] (Token TK_DOT ''.'' 1 2)) =
   Some (Inr (True, exampleState ''a.b.C{}'' 6
      [Token TK_IDENTIFIER ''b'' 1 3, Token TK_DOT ''.'' 1 4, Token TK_IDENTIFIER ''C'' 1 5,
       Token TK_LBRACE ''{'' 1 6] (Token TK_DOT ''.'' 1 2)))"
  "parseQualifiedIdent 8 ''a'' (exampleState ''a.b.C{}'' 6
      [Token TK_IDENTIFIER ''b'' 1 3, Token TK_DOT ''.'' 1 4, Token TK_IDENTIFIER ''C'' 1 5,
       Token TK_LBRACE ''{'' 1 6] (Token TK_DOT ''.'' 1 2)) =
   Some (Inr (''a.b.C'', exampleState ''a.b.C{}'' 6 [] (Token TK_LBRACE ''{'' 1 6)))"
  "parseMapOrStructLiteral (parseExpr exampleBuiltins 8) 8 (Some ''a.b.C'')
     (exampleState ''a.b.C{}'' 6 [] (Token TK_LBRACE ''{'' 1 6)) =
   Some (Inr (Struct (Some ''a.b.C'') [], exampleState ''a.b.C{}'' 7 [] (Token TK_EOF [] 1 8)))"
  by code_simp+

lemma exampleState_current: "current (exampleState s p ahead t) = t"
  by (simp add: exampleState_def)


section \<open>The parser returns\<close>

lemma consumes_keeps: "consumes ps r \<Longrightarrow> keeps ps r"
  by (auto simp: consumes_def keeps_def split: option.splits sum.splits)

lemma keeps_returns: "remaining ps' \<le> remaining ps \<Longrightarrow> keeps ps (returns x ps')"
  by (simp add: keeps_def returns_def)

lemma consumes_returns: "remaining ps' < remaining ps \<Longrightarrow> consumes ps (returns x ps')"
  by (simp add: consumes_def returns_def)

lemma keeps_raises [simp]: "keeps ps (raises e)"
  by (simp add: keeps_def raises_def)

lemma consumes_raises [simp]: "consumes ps (raises e)"
  by (simp add: consumes_def raises_def)

lemma keeps_mono: "keeps ps1 r \<Longrightarrow> remaining ps1 \<le> remaining ps \<Longrightarrow> keeps ps r"
  by (auto simp: keeps_def split: option.splits sum.splits)

lemma consumes_mono: "consumes ps1 r \<Longrightarrow> remaining ps1 \<le> remaining ps \<Longrightarrow> consumes ps r"
  by (auto simp: consumes_def split: option.splits sum.splits)

lemma consumes_mono': "keeps ps1 r \<Longrightarrow> remaining ps1 < remaining ps \<Longrightarrow> consumes ps r"
  by (auto simp: consumes_def keeps_def split: option.splits sum.splits)

lemma keeps_andThen:
  assumes "keeps ps m"
    and "\<And>x ps1. m = Some (Inr (x, ps1)) \<Longrightarrow> remaining ps1 \<le> remaining ps \<Longrightarrow> keeps ps (f x ps1)"
  shows "keeps ps (andThen m f)"
  using assms by (auto simp: keeps_def andThen_def split: option.splits sum.splits)

lemma consumes_andThen:
  assumes "keeps ps m"
    and "\<And>x ps1. m = Some (Inr (x, ps1)) \<Longrightarrow> remaining ps1 \<le> remaining ps \<Longrightarrow> consumes ps (f x ps1)"
  shows "consumes ps (andThen m f)"
  using assms by (auto simp: keeps_def consumes_def andThen_def split: option.splits sum.splits)

lemma keepsD: "keeps ps r \<Longrightarrow> r = Some (Inr (x, ps')) \<Longrightarrow> remaining ps' \<le> remaining ps"
  by (simp add: keeps_def)

lemma consumesD: "consumes ps r \<Longrightarrow> r = Some (Inr (x, ps')) \<Longrightarrow> remaining ps' < remaining ps"
  by (simp add: consumes_def)

subsection \<open>The lexer\<close>

lemma token_pending:
  assumes "token lx = Inr (t, lx')"
  shows "pending lx' + (if tokType t = TK_EOF then 0 else 1) \<le> pending lx \<and>
         lookahead lx' = lookahead lx \<and> input lx' = input lx"
proof -
  from token_advanced [OF assms] have i: "input lx' = input lx" "lookahead lx' = lookahead lx"
    using advanced_trans [of lx "whitespace lx" lx'] by (auto simp: advanced_def)
  from token_position [OF assms] i show ?thesis
    by (auto simp: pending_def)
qed

lemma nextToken_pending:
  assumes "nextToken lx = Inr (t, lx')"
  shows "pending lx' + (if tokType t = TK_EOF then 0 else 1) \<le> pending lx"
proof (cases "lookahead lx")
  case Nil
  then show ?thesis using assms token_pending [of lx t lx'] by (simp add: nextToken_def)
next
  case (Cons a as)
  then show ?thesis using assms by (auto simp: nextToken_def pending_def)
qed

lemma pendingFrom_0: "pendingFrom 0 lx = pending lx"
  by (simp add: pendingFrom_def pending_def)

lemma pendingFrom_Suc: "pendingFrom (Suc i) lx \<le> pendingFrom i lx"
proof -
  have "length (filter P (drop (Suc i) xs)) \<le> length (filter P (drop i xs))" for P and xs :: "token list"
    by (cases "i < length xs") (simp_all add: Cons_nth_drop_Suc [symmetric])
  then show ?thesis by (simp add: pendingFrom_def)
qed

lemma pendingFrom_Suc_less:
  "i < length (lookahead lx) \<Longrightarrow> tokType (lookahead lx ! i) \<noteq> TK_EOF \<Longrightarrow>
   pendingFrom (Suc i) lx < pendingFrom i lx"
  by (simp add: pendingFrom_def Cons_nth_drop_Suc [symmetric])

lemma fill_pending:
  "fill k lx = Inr lx' \<Longrightarrow>
     pendingFrom i lx' \<le> pendingFrom i lx \<and> length (lookahead lx') = length (lookahead lx) + k \<and>
     take (length (lookahead lx)) (lookahead lx') = lookahead lx"
proof (induction k arbitrary: lx)
  case 0
  then show ?case by simp
next
  case (Suc k)
  from Suc.prems obtain t lx1 where
    t: "token lx = Inr (t, lx1)" and
    f: "fill k (lx1\<lparr>lookahead := lookahead lx1 @ [t]\<rparr>) = Inr lx'"
    by (auto split: sum.splits)
  let ?lx2 = "lx1\<lparr>lookahead := lookahead lx1 @ [t]\<rparr>"
  from token_pending [OF t] have
    p: "pending lx1 + (if tokType t = TK_EOF then 0 else 1) \<le> pending lx" and
    l: "lookahead lx1 = lookahead lx" and inp: "input lx1 = input lx"
    by simp_all
  have "length (filter (\<lambda>t. tokType t \<noteq> TK_EOF) (drop i (lookahead lx @ [t]))) \<le>
        length (filter (\<lambda>t. tokType t \<noteq> TK_EOF) (drop i (lookahead lx))) +
        (if tokType t = TK_EOF then 0 else 1)"
    by (cases "i \<le> length (lookahead lx)") auto
  with p l inp have 1: "pendingFrom i ?lx2 \<le> pendingFrom i lx"
    by (simp add: pendingFrom_def pending_def)
  from Suc.IH [OF f] have
    2: "pendingFrom i lx' \<le> pendingFrom i ?lx2" and
    3: "length (lookahead lx') = length (lookahead ?lx2) + k" and
    4: "take (length (lookahead ?lx2)) (lookahead lx') = lookahead ?lx2"
    by simp_all
  from 4 l have 5: "take (Suc (length (lookahead lx))) (lookahead lx') = lookahead lx @ [t]"
    by simp
  have "take (length (lookahead lx)) (lookahead lx') =
        take (length (lookahead lx)) (take (Suc (length (lookahead lx))) (lookahead lx'))"
    by (simp add: min_def)
  also have "\<dots> = lookahead lx" by (simp only: 5) simp
  finally have 6: "take (length (lookahead lx)) (lookahead lx') = lookahead lx" .
  from 1 2 3 l 6 show ?case by simp
qed

subsection \<open>The primitives of the parser\<close>

lemma advance_remaining:
  assumes "advance ps = Some (Inr (u, ps'))"
  shows "remaining ps' + (if tokType (current ps) = TK_EOF then 0 else 1) \<le> remaining ps"
proof (cases "nextToken (lexer ps)")
  case (Inl e)
  with assms show ?thesis by (simp add: advance_def raises_def)
next
  case (Inr p)
  obtain t lx where p: "p = (t, lx)" by (cases p)
  with assms Inr have s: "ps' = \<lparr> lexer = lx, current = t \<rparr>"
    by (simp add: advance_def returns_def)
  from Inr p have "nextToken (lexer ps) = Inr (t, lx)" by simp
  from nextToken_pending [OF this] s show ?thesis by (simp add: remaining_def)
qed

lemma advance_total: "advance ps \<noteq> None"
  by (auto simp: advance_def returns_def raises_def split: sum.splits)

lemma advance_keeps: "keeps ps (advance ps)"
  using advance_remaining [of ps] advance_total [of ps]
  by (auto simp: keeps_def split: option.splits sum.splits if_splits)

lemma advance_consumes: "tokType (current ps) \<noteq> TK_EOF \<Longrightarrow> consumes ps (advance ps)"
  using advance_remaining [of ps] advance_total [of ps]
  by (auto simp: consumes_def split: option.splits sum.splits if_splits)

lemma peek_pending:
  assumes "peek count lx = Inr (t, lx')"
  shows "pendingFrom i lx' \<le> pendingFrom i lx \<and> count \<le> length (lookahead lx') \<and>
         t = lookahead lx' ! (count - 1)"
proof (cases "fill (count - length (lookahead lx)) lx")
  case (Inl e)
  with assms show ?thesis by (simp add: peek_def)
next
  case (Inr lx1)
  with assms have r: "t = lookahead lx1 ! (count - 1)" "lx' = lx1" by (auto simp: peek_def)
  from fill_pending [OF Inr, of i] r show ?thesis by auto
qed

lemma peekAhead_returns:
  assumes "peekAhead count ps = Some (Inr (t, ps'))"
  shows "current ps' = current ps \<and> pendingFrom i (lexer ps') \<le> pendingFrom i (lexer ps) \<and>
         count \<le> length (lookahead (lexer ps')) \<and> t = lookahead (lexer ps') ! (count - 1)"
proof (cases "peek count (lexer ps)")
  case (Inl e)
  with assms show ?thesis by (simp add: peekAhead_def raises_def)
next
  case (Inr p)
  obtain t' lx where p: "p = (t', lx)" by (cases p)
  with assms Inr have s: "t' = t" "ps' = ps\<lparr>lexer := lx\<rparr>"
    by (simp_all add: peekAhead_def returns_def)
  from Inr p s have "peek count (lexer ps) = Inr (t, lx)" by simp
  from peek_pending [OF this, of i] s show ?thesis by simp
qed

lemma peekAhead_total: "peekAhead count ps \<noteq> None"
  by (auto simp: peekAhead_def returns_def raises_def split: sum.splits)

lemma peekAhead_remaining:
  "peekAhead count ps = Some (Inr (t, ps')) \<Longrightarrow> remaining ps' \<le> remaining ps"
  using peekAhead_returns [of count ps t ps' 0]
  by (simp add: remaining_def pendingFrom_0)

lemma peekAhead_keeps: "keeps ps (peekAhead count ps)"
  using peekAhead_total [of count ps] peekAhead_remaining [of count ps]
  by (auto simp: keeps_def split: option.splits sum.splits)

lemma match_keeps: "keeps ps (match ty ps)"
  unfolding match_def
  by (auto intro!: keeps_andThen advance_keeps keeps_returns)

lemma match_True:
  assumes "match ty ps = Some (Inr (True, ps1))" and "ty \<noteq> TK_EOF"
  shows "remaining ps1 < remaining ps"
proof -
  from assms have c: "tokType (current ps) = ty" and a: "advance ps = Some (Inr ((), ps1))"
    by (auto simp: match_def andThen_returns_iff returns_iff split: if_splits)
  from advance_remaining [OF a] c assms(2) show ?thesis by simp
qed

lemma expect_keeps: "keeps ps (expect ty ps)"
  unfolding expect_def by (auto intro!: advance_keeps)

lemma expect_consumes: "ty \<noteq> TK_EOF \<Longrightarrow> consumes ps (expect ty ps)"
  unfolding expect_def by (auto intro!: advance_consumes)

lemma expectIdentifier_consumes: "consumes ps (expectIdentifier ps)"
proof (cases "tokType (current ps) = TK_IDENTIFIER")
  case True
  then have "consumes ps (advance ps)" by (intro advance_consumes) simp
  then show ?thesis using True
    by (auto simp: expectIdentifier_def Let_def consumes_def andThen_def returns_def
          split: option.splits sum.splits)
next
  case False
  then show ?thesis by (simp add: expectIdentifier_def)
qed

lemma parseLiteral_consumes:
  assumes "isLiteralToken (tokType (current ps))"
  shows "consumes ps (parseLiteral rt ps)"
proof -
  from assms have "tokType (current ps) \<noteq> TK_EOF" by (auto simp: isLiteralToken_def)
  then have a: "consumes ps (advance ps)" by (rule advance_consumes)
  show ?thesis
  proof (cases "advance ps")
    case None
    with a show ?thesis by (simp add: consumes_def)
  next
    case (Some r)
    show ?thesis
    proof (cases r)
      case (Inl e)
      with Some show ?thesis by (simp add: parseLiteral_def Let_def andThen_def consumes_def)
    next
      case (Inr p)
      obtain u ps1 where p: "p = (u, ps1)" by (cases p)
      from a Some Inr p have l: "remaining ps1 < remaining ps" by (simp add: consumes_def)
      have "consumes ps (returns x ps1)" for x :: expr using l by (rule consumes_returns)
      then show ?thesis
        using Some Inr p
        by (simp add: parseLiteral_def Let_def andThen_def split: tokenType.splits sum.splits)
    qed
  qed
qed

subsection \<open>Sequencing\<close>

lemma keeps_then:
  assumes "keeps ps m"
    and "\<And>x ps1. m = Some (Inr (x, ps1)) \<Longrightarrow> remaining ps1 \<le> remaining ps \<Longrightarrow> keeps ps1 (f x ps1)"
  shows "keeps ps (andThen m f)"
  using assms
  by (auto simp: keeps_def andThen_def split: option.splits sum.splits)

lemma keeps_then_strict:
  assumes "consumes ps m"
    and "\<And>x ps1. m = Some (Inr (x, ps1)) \<Longrightarrow> remaining ps1 < remaining ps \<Longrightarrow> keeps ps1 (f x ps1)"
  shows "keeps ps (andThen m f)"
  using assms
  by (auto simp: keeps_def consumes_def andThen_def split: option.splits sum.splits)

lemma consumes_then:
  assumes "consumes ps m"
    and "\<And>x ps1. m = Some (Inr (x, ps1)) \<Longrightarrow> remaining ps1 < remaining ps \<Longrightarrow> keeps ps1 (f x ps1)"
  shows "consumes ps (andThen m f)"
  using assms
  by (auto simp: keeps_def consumes_def andThen_def split: option.splits sum.splits)

lemma consumes_later:
  assumes "keeps ps m"
    and "\<And>x ps1. m = Some (Inr (x, ps1)) \<Longrightarrow> remaining ps1 \<le> remaining ps \<Longrightarrow> consumes ps1 (f x ps1)"
  shows "consumes ps (andThen m f)"
  using assms
  by (auto simp: keeps_def consumes_def andThen_def split: option.splits sum.splits)

lemma keeps_refl: "keeps ps (returns x ps)"
  by (simp add: keeps_returns)

lemma goodD: "good f b \<Longrightarrow> remaining ps < b \<Longrightarrow> consumes ps (f ps)"
  by (simp add: good_def)

lemma optional_comma_keeps:
  "keeps ps (if tokType (current ps) = TK_COMMA then advance ps else returns () ps)"
  by (simp add: advance_keeps keeps_refl)

subsection \<open>Lists of expressions, entries and fields\<close>

lemma exprListLoop_keeps:
  "good pe b \<Longrightarrow> remaining ps \<le> b \<Longrightarrow> remaining ps < k \<Longrightarrow>
   keeps ps (exprListLoop pe k xs ps)"
proof (induction k arbitrary: xs ps)
  case 0
  then show ?case by simp
next
  case (Suc k)
  show ?case
  proof (cases "tokType (current ps) = TK_COMMA")
    case False
    then show ?thesis by (simp add: keeps_refl)
  next
    case True
    then have c: "consumes ps (advance ps)" by (intro advance_consumes) simp
    have "keeps ps (andThen (advance ps) (\<lambda>_ ps1.
          if tokType (current ps1) = TK_RPAREN \<or> tokType (current ps1) = TK_RBRACKET
          then returns xs ps1
          else andThen (pe ps1) (\<lambda>e ps2. exprListLoop pe k (xs @ [e]) ps2)))"
    proof (rule keeps_then_strict [OF c])
      fix u ps1
      assume l: "remaining ps1 < remaining ps"
      have "keeps ps1 (andThen (pe ps1) (\<lambda>e ps2. exprListLoop pe k (xs @ [e]) ps2))"
      proof (rule keeps_then_strict)
        show "consumes ps1 (pe ps1)" using Suc.prems l by (intro goodD [of pe b]) simp_all
      next
        fix e ps2
        assume "remaining ps2 < remaining ps1"
        then show "keeps ps2 (exprListLoop pe k (xs @ [e]) ps2)"
          using Suc.prems l by (intro Suc.IH) simp_all
      qed
      then show "keeps ps1 (if tokType (current ps1) = TK_RPAREN \<or> tokType (current ps1) = TK_RBRACKET
          then returns xs ps1
          else andThen (pe ps1) (\<lambda>e ps2. exprListLoop pe k (xs @ [e]) ps2))"
        by (simp add: keeps_refl)
    qed
    then show ?thesis using True by simp
  qed
qed

lemma parseExprList_keeps:
  assumes "good pe b" "remaining ps < b" "remaining ps \<le> k"
  shows "keeps ps (parseExprList pe k ps)"
proof -
  have "keeps ps (andThen (pe ps) (\<lambda>e ps1. exprListLoop pe k [e] ps1))"
  proof (rule keeps_then_strict)
    show "consumes ps (pe ps)" using assms by (intro goodD [of pe b])
  next
    fix e ps1
    assume "remaining ps1 < remaining ps"
    then show "keeps ps1 (exprListLoop pe k [e] ps1)"
      using assms by (intro exprListLoop_keeps [of pe b]) simp_all
  qed
  then show ?thesis by (simp add: parseExprList_def Let_def keeps_refl)
qed

lemma parseListLiteral_consumes:
  assumes "good pe b" "remaining ps \<le> b" "remaining ps \<le> k"
  shows "consumes ps (parseListLiteral pe k ps)"
  unfolding parseListLiteral_def
proof (rule consumes_then)
  show "consumes ps (expect TK_LBRACKET ps)" by (rule expect_consumes) simp
next
  fix u ps1
  assume l: "remaining ps1 < remaining ps"
  show "keeps ps1 (andThen
         (if tokType (current ps1) \<noteq> TK_RBRACKET then
            andThen (parseExprList pe k ps1) (\<lambda>elements ps2.
              if tokType (current ps2) = TK_COMMA
              then andThen (advance ps2) (\<lambda>_ ps3. returns elements ps3)
              else returns elements ps2)
          else returns [] ps1)
         (\<lambda>elements ps4.
            andThen (expect TK_RBRACKET ps4) (\<lambda>_ ps5. returns (ListExpression elements) ps5)))"
  proof (rule keeps_then)
    have "keeps ps1 (andThen (parseExprList pe k ps1) (\<lambda>elements ps2.
              if tokType (current ps2) = TK_COMMA
              then andThen (advance ps2) (\<lambda>_ ps3. returns elements ps3)
              else returns elements ps2))"
    proof (rule keeps_then)
      show "keeps ps1 (parseExprList pe k ps1)"
        using assms l by (intro parseExprList_keeps [of pe b]) simp_all
    next
      fix elements ps2
      have "keeps ps2 (andThen (advance ps2) (\<lambda>_ ps3. returns elements ps3))"
        by (rule keeps_then [OF advance_keeps]) (rule keeps_refl)
      then show "keeps ps2 (if tokType (current ps2) = TK_COMMA
              then andThen (advance ps2) (\<lambda>_ ps3. returns elements ps3)
              else returns elements ps2)"
        by (simp add: keeps_refl)
    qed
    then show "keeps ps1 (if tokType (current ps1) \<noteq> TK_RBRACKET then
            andThen (parseExprList pe k ps1) (\<lambda>elements ps2.
              if tokType (current ps2) = TK_COMMA
              then andThen (advance ps2) (\<lambda>_ ps3. returns elements ps3)
              else returns elements ps2)
          else returns [] ps1)"
      by (simp add: keeps_refl)
  next
    fix elements ps4
    show "keeps ps4 (andThen (expect TK_RBRACKET ps4) (\<lambda>_ ps5. returns (ListExpression elements) ps5))"
      by (rule keeps_then [OF expect_keeps]) (rule keeps_refl)
  qed
qed

lemma parseMapInit_consumes:
  assumes "good pe b" "remaining ps < b"
  shows "consumes ps (parseMapInit pe ps)"
  unfolding parseMapInit_def
proof (rule consumes_then)
  show "consumes ps (pe ps)" using assms by (rule goodD)
next
  fix key ps1
  assume l: "remaining ps1 < remaining ps"
  show "keeps ps1 (andThen (expect TK_COLON ps1) (\<lambda>_ ps2.
         andThen (pe ps2) (\<lambda>v ps3. returns (key, v) ps3)))"
  proof (rule keeps_then [OF expect_keeps])
    fix u ps2
    assume "remaining ps2 \<le> remaining ps1"
    then have "consumes ps2 (pe ps2)" using assms l by (intro goodD [of pe b]) simp_all
    then show "keeps ps2 (andThen (pe ps2) (\<lambda>v ps3. returns (key, v) ps3))"
      by (rule keeps_then_strict) (rule keeps_refl)
  qed
qed

lemma mapInitsLoop_keeps:
  "good pe b \<Longrightarrow> remaining ps \<le> b \<Longrightarrow> remaining ps < k \<Longrightarrow>
   keeps ps (mapInitsLoop pe k xs ps)"
proof (induction k arbitrary: xs ps)
  case 0
  then show ?case by simp
next
  case (Suc k)
  show ?case
  proof (cases "tokType (current ps) = TK_COMMA")
    case False
    then show ?thesis by (simp add: keeps_refl)
  next
    case True
    then have c: "consumes ps (advance ps)" by (intro advance_consumes) simp
    have "keeps ps (andThen (advance ps) (\<lambda>_ ps1.
          if tokType (current ps1) = TK_RBRACE then returns xs ps1
          else andThen (parseMapInit pe ps1) (\<lambda>entry ps2. mapInitsLoop pe k (xs @ [entry]) ps2)))"
    proof (rule keeps_then_strict [OF c])
      fix u ps1
      assume l: "remaining ps1 < remaining ps"
      have "keeps ps1 (andThen (parseMapInit pe ps1) (\<lambda>entry ps2. mapInitsLoop pe k (xs @ [entry]) ps2))"
      proof (rule keeps_then_strict)
        show "consumes ps1 (parseMapInit pe ps1)"
          using Suc.prems l by (intro parseMapInit_consumes [of pe b]) simp_all
      next
        fix e ps2
        assume "remaining ps2 < remaining ps1"
        then show "keeps ps2 (mapInitsLoop pe k (xs @ [e]) ps2)"
          using Suc.prems l by (intro Suc.IH) simp_all
      qed
      then show "keeps ps1 (if tokType (current ps1) = TK_RBRACE then returns xs ps1
          else andThen (parseMapInit pe ps1) (\<lambda>entry ps2. mapInitsLoop pe k (xs @ [entry]) ps2))"
        by (simp add: keeps_refl)
    qed
    then show ?thesis using True by simp
  qed
qed

lemma parseMapInits_keeps:
  assumes "good pe b" "remaining ps < b" "remaining ps \<le> k"
  shows "keeps ps (parseMapInits pe k ps)"
  unfolding parseMapInits_def
proof (rule keeps_then_strict)
  show "consumes ps (parseMapInit pe ps)" using assms by (intro parseMapInit_consumes [of pe b])
next
  fix e ps1
  assume "remaining ps1 < remaining ps"
  then show "keeps ps1 (mapInitsLoop pe k [e] ps1)"
    using assms by (intro mapInitsLoop_keeps [of pe b]) simp_all
qed

lemma parseFieldInit_consumes:
  assumes "good pe b" "remaining ps \<le> b"
  shows "consumes ps (parseFieldInit pe ps)"
  unfolding parseFieldInit_def
proof (rule consumes_then [OF expectIdentifier_consumes])
  fix field ps1
  assume l: "remaining ps1 < remaining ps"
  show "keeps ps1 (andThen (expect TK_COLON ps1) (\<lambda>_ ps2.
         andThen (pe ps2) (\<lambda>v ps3. returns (field, v) ps3)))"
  proof (rule keeps_then [OF expect_keeps])
    fix u ps2
    assume "remaining ps2 \<le> remaining ps1"
    then have "consumes ps2 (pe ps2)" using assms l by (intro goodD [of pe b]) simp_all
    then show "keeps ps2 (andThen (pe ps2) (\<lambda>v ps3. returns (field, v) ps3))"
      by (rule keeps_then_strict) (rule keeps_refl)
  qed
qed

lemma fieldInitsLoop_keeps:
  "good pe b \<Longrightarrow> remaining ps \<le> b \<Longrightarrow> remaining ps < k \<Longrightarrow>
   keeps ps (fieldInitsLoop pe k xs ps)"
proof (induction k arbitrary: xs ps)
  case 0
  then show ?case by simp
next
  case (Suc k)
  show ?case
  proof (cases "tokType (current ps) = TK_COMMA")
    case False
    then show ?thesis by (simp add: keeps_refl)
  next
    case True
    then have c: "consumes ps (advance ps)" by (intro advance_consumes) simp
    have "keeps ps (andThen (advance ps) (\<lambda>_ ps1.
          if tokType (current ps1) = TK_RBRACE then returns xs ps1
          else andThen (parseFieldInit pe ps1) (\<lambda>fieldInit ps2.
                 fieldInitsLoop pe k (xs @ [fieldInit]) ps2)))"
    proof (rule keeps_then_strict [OF c])
      fix u ps1
      assume l: "remaining ps1 < remaining ps"
      have "keeps ps1 (andThen (parseFieldInit pe ps1) (\<lambda>fieldInit ps2.
                 fieldInitsLoop pe k (xs @ [fieldInit]) ps2))"
      proof (rule keeps_then_strict)
        show "consumes ps1 (parseFieldInit pe ps1)"
          using Suc.prems l by (intro parseFieldInit_consumes [of pe b]) simp_all
      next
        fix e ps2
        assume "remaining ps2 < remaining ps1"
        then show "keeps ps2 (fieldInitsLoop pe k (xs @ [e]) ps2)"
          using Suc.prems l by (intro Suc.IH) simp_all
      qed
      then show "keeps ps1 (if tokType (current ps1) = TK_RBRACE then returns xs ps1
          else andThen (parseFieldInit pe ps1) (\<lambda>fieldInit ps2.
                 fieldInitsLoop pe k (xs @ [fieldInit]) ps2))"
        by (simp add: keeps_refl)
    qed
    then show ?thesis using True by simp
  qed
qed

lemma parseFieldInits_keeps:
  assumes "good pe b" "remaining ps \<le> b" "remaining ps \<le> k"
  shows "keeps ps (parseFieldInits pe k ps)"
  unfolding parseFieldInits_def
proof (rule keeps_then_strict)
  show "consumes ps (parseFieldInit pe ps)" using assms by (intro parseFieldInit_consumes [of pe b])
next
  fix e ps1
  assume "remaining ps1 < remaining ps"
  then show "keeps ps1 (fieldInitsLoop pe k [e] ps1)"
    using assms by (intro fieldInitsLoop_keeps [of pe b]) simp_all
qed

lemma isStruct_keeps: "keeps ps (isStruct ps)"
  unfolding isStruct_def
  by (auto intro!: keeps_then peekAhead_keeps keeps_refl)

lemma closing_brace_keeps:
  "keeps ps3 (andThen (if tokType (current ps3) = TK_COMMA then advance ps3 else returns () ps3)
     (\<lambda>_ ps4. andThen (expect TK_RBRACE ps4) (\<lambda>_ ps5. returns e ps5)))"
proof (rule keeps_then [OF optional_comma_keeps])
  fix u ps4
  show "keeps ps4 (andThen (expect TK_RBRACE ps4) (\<lambda>_ ps5. returns e ps5))"
    by (rule keeps_then [OF expect_keeps]) (rule keeps_refl)
qed

lemma parseMapOrStructLiteral_consumes:
  assumes "good pe b" "remaining ps \<le> b" "remaining ps \<le> k"
  shows "consumes ps (parseMapOrStructLiteral pe k typeName ps)"
  unfolding parseMapOrStructLiteral_def
proof (rule consumes_then)
  show "consumes ps (expect TK_LBRACE ps)" by (rule expect_consumes) simp
next
  fix u ps1
  assume l: "remaining ps1 < remaining ps"
  have 1: "keeps ps1 (andThen (advance ps1) (\<lambda>_ ps2.
           if typeName \<noteq> None then returns (Struct typeName []) ps2
           else returns (MapExpression []) ps2))"
    by (rule keeps_then [OF advance_keeps]) (simp add: keeps_refl)
  have 2: "keeps ps1 (andThen (isStruct ps1) (\<lambda>isStruct ps2.
           if isStruct \<or> typeName \<noteq> None then
             andThen (parseFieldInits pe k ps2) (\<lambda>fieldInits ps3.
               andThen
                 (if tokType (current ps3) = TK_COMMA then advance ps3 else returns () ps3)
                 (\<lambda>_ ps4.
                    andThen (expect TK_RBRACE ps4) (\<lambda>_ ps5.
                      returns (Struct typeName fieldInits) ps5)))
           else
             andThen (parseMapInits pe k ps2) (\<lambda>entries ps3.
               andThen
                 (if tokType (current ps3) = TK_COMMA then advance ps3 else returns () ps3)
                 (\<lambda>_ ps4.
                    andThen (expect TK_RBRACE ps4) (\<lambda>_ ps5.
                      returns (MapExpression entries) ps5)))))"
  proof (rule keeps_then [OF isStruct_keeps])
    fix s ps2
    assume l2: "remaining ps2 \<le> remaining ps1"
    have f: "keeps ps2 (andThen (parseFieldInits pe k ps2) (\<lambda>fieldInits ps3.
               andThen
                 (if tokType (current ps3) = TK_COMMA then advance ps3 else returns () ps3)
                 (\<lambda>_ ps4.
                    andThen (expect TK_RBRACE ps4) (\<lambda>_ ps5.
                      returns (Struct typeName fieldInits) ps5))))"
    proof (rule keeps_then)
      show "keeps ps2 (parseFieldInits pe k ps2)"
        using assms l l2 by (intro parseFieldInits_keeps [of pe b]) simp_all
    qed (rule closing_brace_keeps)
    have m: "keeps ps2 (andThen (parseMapInits pe k ps2) (\<lambda>entries ps3.
               andThen
                 (if tokType (current ps3) = TK_COMMA then advance ps3 else returns () ps3)
                 (\<lambda>_ ps4.
                    andThen (expect TK_RBRACE ps4) (\<lambda>_ ps5.
                      returns (MapExpression entries) ps5))))"
    proof (rule keeps_then)
      show "keeps ps2 (parseMapInits pe k ps2)"
        using assms l l2 by (intro parseMapInits_keeps [of pe b]) simp_all
    qed (rule closing_brace_keeps)
    from f m show "keeps ps2 (if s \<or> typeName \<noteq> None then
             andThen (parseFieldInits pe k ps2) (\<lambda>fieldInits ps3.
               andThen
                 (if tokType (current ps3) = TK_COMMA then advance ps3 else returns () ps3)
                 (\<lambda>_ ps4.
                    andThen (expect TK_RBRACE ps4) (\<lambda>_ ps5.
                      returns (Struct typeName fieldInits) ps5)))
           else
             andThen (parseMapInits pe k ps2) (\<lambda>entries ps3.
               andThen
                 (if tokType (current ps3) = TK_COMMA then advance ps3 else returns () ps3)
                 (\<lambda>_ ps4.
                    andThen (expect TK_RBRACE ps4) (\<lambda>_ ps5.
                      returns (MapExpression entries) ps5))))"
      by simp
  qed
  from 1 2 show "keeps ps1 (if tokType (current ps1) = TK_RBRACE then
         andThen (advance ps1) (\<lambda>_ ps2.
           if typeName \<noteq> None then returns (Struct typeName []) ps2
           else returns (MapExpression []) ps2)
       else
         andThen (isStruct ps1) (\<lambda>isStruct ps2.
           if isStruct \<or> typeName \<noteq> None then
             andThen (parseFieldInits pe k ps2) (\<lambda>fieldInits ps3.
               andThen
                 (if tokType (current ps3) = TK_COMMA then advance ps3 else returns () ps3)
                 (\<lambda>_ ps4.
                    andThen (expect TK_RBRACE ps4) (\<lambda>_ ps5.
                      returns (Struct typeName fieldInits) ps5)))
           else
             andThen (parseMapInits pe k ps2) (\<lambda>entries ps3.
               andThen
                 (if tokType (current ps3) = TK_COMMA then advance ps3 else returns () ps3)
                 (\<lambda>_ ps4.
                    andThen (expect TK_RBRACE ps4) (\<lambda>_ ps5.
                      returns (MapExpression entries) ps5)))))"
    by simp
qed

lemma keeps_if: "(c \<Longrightarrow> keeps ps a) \<Longrightarrow> (\<not> c \<Longrightarrow> keeps ps b) \<Longrightarrow> keeps ps (if c then a else b)"
  by simp

lemma consumes_if:
  "(c \<Longrightarrow> consumes ps a) \<Longrightarrow> (\<not> c \<Longrightarrow> consumes ps b) \<Longrightarrow> consumes ps (if c then a else b)"
  by simp

subsection \<open>Qualified names\<close>

lemma qualifiedLoop_keeps:
  "1 \<le> ahead \<Longrightarrow> ahead \<le> length (lookahead (lexer ps)) \<Longrightarrow>
   tok = lookahead (lexer ps) ! (ahead - 1) \<Longrightarrow> pendingFrom (ahead - 1) (lexer ps) < k \<Longrightarrow>
   keeps ps (qualifiedLoop k ahead tok ps)"
proof (induction k arbitrary: ahead tok ps)
  case 0
  then show ?case by simp
next
  case (Suc k)
  show ?case
  proof (cases "tokType tok = TK_DOT")
    case False
    then show ?thesis by (simp add: keeps_refl)
  next
    case True
    have less: "pendingFrom ahead (lexer ps) < pendingFrom (ahead - 1) (lexer ps)"
      using pendingFrom_Suc_less [of "ahead - 1" "lexer ps"] Suc.prems True by simp
    have "keeps ps (andThen (peekAhead (ahead + 1) ps) (\<lambda>tok1 ps1.
          if tokType tok1 \<noteq> TK_IDENTIFIER then returns False ps1
          else andThen (peekAhead (ahead + 2) ps1) (\<lambda>tok2 ps2.
                 qualifiedLoop k (ahead + 2) tok2 ps2)))"
    proof (rule keeps_then [OF peekAhead_keeps])
      fix tok1 ps1
      assume p1: "peekAhead (ahead + 1) ps = Some (Inr (tok1, ps1))"
      have "keeps ps1 (andThen (peekAhead (ahead + 2) ps1) (\<lambda>tok2 ps2.
                 qualifiedLoop k (ahead + 2) tok2 ps2))"
      proof (rule keeps_then [OF peekAhead_keeps])
        fix tok2 ps2
        assume p2: "peekAhead (ahead + 2) ps1 = Some (Inr (tok2, ps2))"
        from peekAhead_returns [OF p1, of "ahead + 1"] have
          a: "pendingFrom (ahead + 1) (lexer ps1) \<le> pendingFrom (ahead + 1) (lexer ps)" by simp
        from peekAhead_returns [OF p2, of "ahead + 1"] have
          b: "pendingFrom (ahead + 1) (lexer ps2) \<le> pendingFrom (ahead + 1) (lexer ps1)" and
          c: "ahead + 2 \<le> length (lookahead (lexer ps2))" and
          d: "tok2 = lookahead (lexer ps2) ! (ahead + 2 - 1)"
          by simp_all
        have "pendingFrom (ahead + 1) (lexer ps) \<le> pendingFrom ahead (lexer ps)"
          using pendingFrom_Suc [of ahead "lexer ps"] by simp
        with a b less Suc.prems(4) have "pendingFrom (ahead + 2 - 1) (lexer ps2) < k" by simp
        with c d show "keeps ps2 (qualifiedLoop k (ahead + 2) tok2 ps2)"
          by (intro Suc.IH) simp_all
      qed
      then show "keeps ps1 (if tokType tok1 \<noteq> TK_IDENTIFIER then returns False ps1
          else andThen (peekAhead (ahead + 2) ps1) (\<lambda>tok2 ps2.
                 qualifiedLoop k (ahead + 2) tok2 ps2))"
        by (simp add: keeps_refl)
    qed
    then show ?thesis using True by simp
  qed
qed

lemma isQualifiedStructLiteral_keeps:
  assumes "pending (lexer ps) < k"
  shows "keeps ps (isQualifiedStructLiteral k ps)"
  unfolding isQualifiedStructLiteral_def
proof (rule keeps_then [OF peekAhead_keeps])
  fix tok ps1
  assume p1: "peekAhead 1 ps = Some (Inr (tok, ps1))"
  have "keeps ps1 (andThen (peekAhead 2 ps1) (\<lambda>tok1 ps2. qualifiedLoop k 2 tok1 ps2))"
  proof (rule keeps_then [OF peekAhead_keeps])
    fix tok1 ps2
    assume p2: "peekAhead 2 ps1 = Some (Inr (tok1, ps2))"
    from peekAhead_returns [OF p1, of 1] have
      a: "pendingFrom 1 (lexer ps1) \<le> pendingFrom 1 (lexer ps)" by simp
    from peekAhead_returns [OF p2, of 1] have
      b: "pendingFrom 1 (lexer ps2) \<le> pendingFrom 1 (lexer ps1)" and
      c: "2 \<le> length (lookahead (lexer ps2))" and
      d: "tok1 = lookahead (lexer ps2) ! (2 - 1)"
      by simp_all
    have "pendingFrom 1 (lexer ps) \<le> pending (lexer ps)"
      using pendingFrom_Suc [of 0 "lexer ps"] by (simp add: pendingFrom_0)
    with a b assms have "pendingFrom (2 - 1) (lexer ps2) < k" by simp
    with c d show "keeps ps2 (qualifiedLoop k 2 tok1 ps2)"
      by (intro qualifiedLoop_keeps) simp_all
  qed
  then show "keeps ps1 (if tokType tok \<noteq> TK_IDENTIFIER then returns False ps1
       else andThen (peekAhead 2 ps1) (\<lambda>tok1 ps2. qualifiedLoop k 2 tok1 ps2))"
    by (simp add: keeps_refl)
qed

lemma pending_le_remaining: "pending (lexer ps) \<le> remaining ps"
  by (simp add: remaining_def)

lemma parseQualifiedIdent_keeps:
  "remaining ps < k \<Longrightarrow> keeps ps (parseQualifiedIdent k name ps)"
proof (induction k arbitrary: name ps)
  case 0
  then show ?case by simp
next
  case (Suc k)
  show ?case
  proof (cases "tokType (current ps) = TK_DOT")
    case False
    then show ?thesis by (simp add: keeps_refl)
  next
    case True
    then have c: "consumes ps (advance ps)" by (intro advance_consumes) simp
    have "keeps ps (andThen (advance ps) (\<lambda>_ ps1.
          andThen (expectIdentifier ps1) (\<lambda>n ps2.
            parseQualifiedIdent k (name @ ''.'' @ n) ps2)))"
    proof (rule keeps_then_strict [OF c])
      fix u ps1
      assume l: "remaining ps1 < remaining ps"
      show "keeps ps1 (andThen (expectIdentifier ps1) (\<lambda>n ps2.
            parseQualifiedIdent k (name @ ''.'' @ n) ps2))"
      proof (rule keeps_then_strict [OF expectIdentifier_consumes])
        fix n ps2
        assume "remaining ps2 < remaining ps1"
        then show "keeps ps2 (parseQualifiedIdent k (name @ ''.'' @ n) ps2)"
          using Suc.prems l by (intro Suc.IH) simp
      qed
    qed
    then show ?thesis using True by simp
  qed
qed

subsection \<open>Primary and member expressions\<close>

lemma call_keeps:
  assumes "good pe b" "remaining ps < b" "remaining ps \<le> k"
    and "\<And>args ps5. keeps ps5 (f args ps5)"
  shows "keeps ps (andThen (parseExprList pe k ps) (\<lambda>args ps4.
           andThen (expect TK_RPAREN ps4) (\<lambda>_ ps5. f args ps5)))"
proof (rule keeps_then)
  show "keeps ps (parseExprList pe k ps)" using assms(1-3) by (rule parseExprList_keeps)
next
  fix args ps4
  show "keeps ps4 (andThen (expect TK_RPAREN ps4) (\<lambda>_ ps5. f args ps5))"
    by (rule keeps_then [OF expect_keeps]) (rule assms(4))
qed

lemma parsePrimary_consumes:
  assumes g: "good pe b" and b: "remaining ps \<le> b" and k: "remaining ps \<le> k"
  shows "consumes ps (parsePrimary rt pe k ps)"
proof -
  have paren: "consumes ps (andThen (advance ps) (\<lambda>_ ps1.
          andThen (pe ps1) (\<lambda>e ps2.
            andThen (expect TK_RPAREN ps2) (\<lambda>_ ps3. returns e ps3))))"
    if "tokType (current ps) = TK_LPAREN"
  proof (rule consumes_then)
    show "consumes ps (advance ps)" using that by (intro advance_consumes) simp
  next
    fix u ps1
    assume l: "remaining ps1 < remaining ps"
    show "keeps ps1 (andThen (pe ps1) (\<lambda>e ps2.
            andThen (expect TK_RPAREN ps2) (\<lambda>_ ps3. returns e ps3)))"
    proof (rule keeps_then_strict)
      show "consumes ps1 (pe ps1)" using g b l by (intro goodD [of pe b]) simp_all
    next
      fix e ps2
      show "keeps ps2 (andThen (expect TK_RPAREN ps2) (\<lambda>_ ps3. returns e ps3))"
        by (rule keeps_then [OF expect_keeps]) (rule keeps_refl)
    qed
  qed
  have dot: "consumes ps (andThen (advance ps) (\<lambda>_ ps1.
          andThen (expectIdentifier ps1) (\<lambda>field ps2.
            if tokType (current ps2) = TK_LPAREN then
              andThen (advance ps2) (\<lambda>_ ps3.
                andThen (parseExprList pe k ps3) (\<lambda>args ps4.
                  andThen (expect TK_RPAREN ps4) (\<lambda>_ ps5.
                    returns (Call None field args False) ps5)))
            else returns (Select None field False) ps2)))"
    if "tokType (current ps) = TK_DOT"
  proof (rule consumes_then)
    show "consumes ps (advance ps)" using that by (intro advance_consumes) simp
  next
    fix u ps1
    assume l: "remaining ps1 < remaining ps"
    show "keeps ps1 (andThen (expectIdentifier ps1) (\<lambda>field ps2.
            if tokType (current ps2) = TK_LPAREN then
              andThen (advance ps2) (\<lambda>_ ps3.
                andThen (parseExprList pe k ps3) (\<lambda>args ps4.
                  andThen (expect TK_RPAREN ps4) (\<lambda>_ ps5.
                    returns (Call None field args False) ps5)))
            else returns (Select None field False) ps2))"
    proof (rule keeps_then [OF consumes_keeps [OF expectIdentifier_consumes]], rule keeps_if)
      fix field ps2
      assume l2: "remaining ps2 \<le> remaining ps1"
      show "keeps ps2 (andThen (advance ps2) (\<lambda>_ ps3.
                andThen (parseExprList pe k ps3) (\<lambda>args ps4.
                  andThen (expect TK_RPAREN ps4) (\<lambda>_ ps5.
                    returns (Call None field args False) ps5))))"
      proof (rule keeps_then [OF advance_keeps])
        fix u ps3
        assume "remaining ps3 \<le> remaining ps2"
        then show "keeps ps3 (andThen (parseExprList pe k ps3) (\<lambda>args ps4.
                  andThen (expect TK_RPAREN ps4) (\<lambda>_ ps5.
                    returns (Call None field args False) ps5)))"
          using g b k l l2 by (intro call_keeps [of pe b]) (simp_all add: keeps_refl)
      qed
    next
      fix field ps2
      show "keeps ps2 (returns (Select None field False) ps2)" by (rule keeps_refl)
    qed
  qed
  have ident: "consumes ps (andThen (advance ps) (\<lambda>_ ps1.
              if tokType (current ps1) = TK_LPAREN then
                andThen (advance ps1) (\<lambda>_ ps2.
                  andThen (parseExprList pe k ps2) (\<lambda>args ps3.
                    andThen (expect TK_RPAREN ps3) (\<lambda>_ ps4.
                      returns (Call None name args False) ps4)))
              else
                andThen
                  (if tokType (current ps1) = TK_DOT then isQualifiedStructLiteral k ps1
                   else returns False ps1)
                  (\<lambda>qualifiedStruct ps2.
                     if qualifiedStruct then
                       andThen (parseQualifiedIdent k name ps2) (\<lambda>qualified ps3.
                         parseMapOrStructLiteral pe k (Some qualified) ps3)
                     else if tokType (current ps2) = TK_LBRACE
                     then parseMapOrStructLiteral pe k (Some name) ps2
                     else returns (Identifier name) ps2)))"
    if "tokType (current ps) = TK_IDENTIFIER" for name
  proof (rule consumes_then)
    show "consumes ps (advance ps)" using that by (intro advance_consumes) simp
  next
    fix u ps1
    assume l: "remaining ps1 < remaining ps"
    show "keeps ps1 (if tokType (current ps1) = TK_LPAREN then
                andThen (advance ps1) (\<lambda>_ ps2.
                  andThen (parseExprList pe k ps2) (\<lambda>args ps3.
                    andThen (expect TK_RPAREN ps3) (\<lambda>_ ps4.
                      returns (Call None name args False) ps4)))
              else
                andThen
                  (if tokType (current ps1) = TK_DOT then isQualifiedStructLiteral k ps1
                   else returns False ps1)
                  (\<lambda>qualifiedStruct ps2.
                     if qualifiedStruct then
                       andThen (parseQualifiedIdent k name ps2) (\<lambda>qualified ps3.
                         parseMapOrStructLiteral pe k (Some qualified) ps3)
                     else if tokType (current ps2) = TK_LBRACE
                     then parseMapOrStructLiteral pe k (Some name) ps2
                     else returns (Identifier name) ps2))"
    proof (rule keeps_if)
      show "keeps ps1 (andThen (advance ps1) (\<lambda>_ ps2.
                  andThen (parseExprList pe k ps2) (\<lambda>args ps3.
                    andThen (expect TK_RPAREN ps3) (\<lambda>_ ps4.
                      returns (Call None name args False) ps4))))"
      proof (rule keeps_then [OF advance_keeps])
        fix u ps2
        assume "remaining ps2 \<le> remaining ps1"
        then show "keeps ps2 (andThen (parseExprList pe k ps2) (\<lambda>args ps3.
                    andThen (expect TK_RPAREN ps3) (\<lambda>_ ps4.
                      returns (Call None name args False) ps4)))"
          using g b k l by (intro call_keeps [of pe b]) (simp_all add: keeps_refl)
      qed
    next
      show "keeps ps1 (andThen
                  (if tokType (current ps1) = TK_DOT then isQualifiedStructLiteral k ps1
                   else returns False ps1)
                  (\<lambda>qualifiedStruct ps2.
                     if qualifiedStruct then
                       andThen (parseQualifiedIdent k name ps2) (\<lambda>qualified ps3.
                         parseMapOrStructLiteral pe k (Some qualified) ps3)
                     else if tokType (current ps2) = TK_LBRACE
                     then parseMapOrStructLiteral pe k (Some name) ps2
                     else returns (Identifier name) ps2))"
      proof (rule keeps_then)
        have "pending (lexer ps1) < k" using pending_le_remaining [of ps1] l k by simp
        then show "keeps ps1 (if tokType (current ps1) = TK_DOT then isQualifiedStructLiteral k ps1
                   else returns False ps1)"
          by (simp add: isQualifiedStructLiteral_keeps keeps_refl)
      next
        fix q ps2
        assume l2: "remaining ps2 \<le> remaining ps1"
        have 1: "keeps ps2 (andThen (parseQualifiedIdent k name ps2) (\<lambda>qualified ps3.
                         parseMapOrStructLiteral pe k (Some qualified) ps3))"
        proof (rule keeps_then)
          show "keeps ps2 (parseQualifiedIdent k name ps2)"
            using l l2 k by (intro parseQualifiedIdent_keeps) simp
        next
          fix qn ps3
          assume "remaining ps3 \<le> remaining ps2"
          then show "keeps ps3 (parseMapOrStructLiteral pe k (Some qn) ps3)"
            using g b k l l2
            by (intro consumes_keeps parseMapOrStructLiteral_consumes [of pe b]) simp_all
        qed
        have 2: "keeps ps2 (parseMapOrStructLiteral pe k (Some name) ps2)"
          using g b k l l2
          by (intro consumes_keeps parseMapOrStructLiteral_consumes [of pe b]) simp_all
        from 1 2 show "keeps ps2 (if q then
                       andThen (parseQualifiedIdent k name ps2) (\<lambda>qualified ps3.
                         parseMapOrStructLiteral pe k (Some qualified) ps3)
                     else if tokType (current ps2) = TK_LBRACE
                     then parseMapOrStructLiteral pe k (Some name) ps2
                     else returns (Identifier name) ps2)"
          by (simp add: keeps_refl)
      qed
    qed
  qed
  show ?thesis
    unfolding parsePrimary_def Let_def
    using paren dot ident parseLiteral_consumes [of ps rt]
      parseListLiteral_consumes [OF g b k] parseMapOrStructLiteral_consumes [OF g b k, of None]
    by simp
qed

lemma memberLoop_keeps:
  "good pe b \<Longrightarrow> remaining ps \<le> b \<Longrightarrow> remaining ps < k \<Longrightarrow> keeps ps (memberLoop pe k e ps)"
proof (induction k arbitrary: e ps)
  case 0
  then show ?case by simp
next
  case (Suc k)
  have dot: "keeps ps (andThen (advance ps) (\<lambda>_ ps1.
          andThen (expectIdentifier ps1) (\<lambda>field ps2.
            if tokType (current ps2) = TK_LPAREN then
              andThen (advance ps2) (\<lambda>_ ps3.
                andThen (parseExprList pe k ps3) (\<lambda>args ps4.
                  andThen (expect TK_RPAREN ps4) (\<lambda>_ ps5.
                    memberLoop pe k (Call (Some e) field args (field \<in> set MACRO_METHODS)) ps5)))
            else memberLoop pe k (Select (Some e) field False) ps2)))"
    if d: "tokType (current ps) = TK_DOT"
  proof (rule keeps_then_strict)
    show "consumes ps (advance ps)" using d by (intro advance_consumes) simp
  next
    fix u ps1
    assume l: "remaining ps1 < remaining ps"
    show "keeps ps1 (andThen (expectIdentifier ps1) (\<lambda>field ps2.
            if tokType (current ps2) = TK_LPAREN then
              andThen (advance ps2) (\<lambda>_ ps3.
                andThen (parseExprList pe k ps3) (\<lambda>args ps4.
                  andThen (expect TK_RPAREN ps4) (\<lambda>_ ps5.
                    memberLoop pe k (Call (Some e) field args (field \<in> set MACRO_METHODS)) ps5)))
            else memberLoop pe k (Select (Some e) field False) ps2))"
    proof (rule keeps_then [OF consumes_keeps [OF expectIdentifier_consumes]], rule keeps_if)
      fix field ps2
      assume l2: "remaining ps2 \<le> remaining ps1"
      show "keeps ps2 (andThen (advance ps2) (\<lambda>_ ps3.
                andThen (parseExprList pe k ps3) (\<lambda>args ps4.
                  andThen (expect TK_RPAREN ps4) (\<lambda>_ ps5.
                    memberLoop pe k (Call (Some e) field args (field \<in> set MACRO_METHODS)) ps5))))"
      proof (rule keeps_then [OF advance_keeps])
        fix u ps3
        assume l3: "remaining ps3 \<le> remaining ps2"
        show "keeps ps3 (andThen (parseExprList pe k ps3) (\<lambda>args ps4.
                  andThen (expect TK_RPAREN ps4) (\<lambda>_ ps5.
                    memberLoop pe k (Call (Some e) field args (field \<in> set MACRO_METHODS)) ps5)))"
        proof (rule keeps_then)
          show "keeps ps3 (parseExprList pe k ps3)"
            using Suc.prems l l2 l3 by (intro parseExprList_keeps [of pe b]) simp_all
        next
          fix args ps4
          assume l4: "remaining ps4 \<le> remaining ps3"
          show "keeps ps4 (andThen (expect TK_RPAREN ps4) (\<lambda>_ ps5.
                    memberLoop pe k (Call (Some e) field args (field \<in> set MACRO_METHODS)) ps5))"
          proof (rule keeps_then [OF expect_keeps])
            fix u ps5
            assume "remaining ps5 \<le> remaining ps4"
            then show "keeps ps5 (memberLoop pe k (Call (Some e) field args (field \<in> set MACRO_METHODS)) ps5)"
              using Suc.prems l l2 l3 l4 by (intro Suc.IH) simp_all
          qed
        qed
      qed
    next
      fix field ps2
      assume "remaining ps2 \<le> remaining ps1"
      then show "keeps ps2 (memberLoop pe k (Select (Some e) field False) ps2)"
        using Suc.prems l by (intro Suc.IH) simp_all
    qed
  qed
  have bracket: "keeps ps (andThen (advance ps) (\<lambda>_ ps1.
          andThen (pe ps1) (\<lambda>index ps2.
            andThen (expect TK_RBRACKET ps2) (\<lambda>_ ps3. memberLoop pe k (Index e index) ps3))))"
    if d: "tokType (current ps) = TK_LBRACKET"
  proof (rule keeps_then_strict)
    show "consumes ps (advance ps)" using d by (intro advance_consumes) simp
  next
    fix u ps1
    assume l: "remaining ps1 < remaining ps"
    show "keeps ps1 (andThen (pe ps1) (\<lambda>index ps2.
            andThen (expect TK_RBRACKET ps2) (\<lambda>_ ps3. memberLoop pe k (Index e index) ps3)))"
    proof (rule keeps_then_strict)
      show "consumes ps1 (pe ps1)" using Suc.prems l by (intro goodD [of pe b]) simp_all
    next
      fix index ps2
      assume l2: "remaining ps2 < remaining ps1"
      show "keeps ps2 (andThen (expect TK_RBRACKET ps2) (\<lambda>_ ps3. memberLoop pe k (Index e index) ps3))"
      proof (rule keeps_then [OF expect_keeps])
        fix u ps3
        assume "remaining ps3 \<le> remaining ps2"
        then show "keeps ps3 (memberLoop pe k (Index e index) ps3)"
          using Suc.prems l l2 by (intro Suc.IH) simp_all
      qed
    qed
  qed
  show ?case using dot bracket by (simp add: keeps_refl)
qed

lemma parseMember_consumes:
  assumes "good pe b" "remaining ps \<le> b" "remaining ps \<le> k"
  shows "consumes ps (parseMember rt pe k ps)"
  unfolding parseMember_def
proof (rule consumes_then)
  show "consumes ps (parsePrimary rt pe k ps)" using assms by (rule parsePrimary_consumes)
next
  fix e ps1
  assume "remaining ps1 < remaining ps"
  then show "keeps ps1 (memberLoop pe k e ps1)"
    using assms by (intro memberLoop_keeps [of pe b]) simp_all
qed

lemma parseUnary_consumes:
  "good pe b \<Longrightarrow> remaining ps \<le> b \<Longrightarrow> remaining ps < k \<Longrightarrow> consumes ps (parseUnary rt pe k ps)"
proof (induction k arbitrary: ps)
  case 0
  then show ?case by simp
next
  case (Suc k)
  have op: "consumes ps (andThen (advance ps) (\<lambda>_ ps1.
          andThen (parseUnary rt pe k ps1) (\<lambda>e ps2. returns (Unary uop e) ps2)))"
    if d: "tokType (current ps) \<noteq> TK_EOF" for uop
  proof (rule consumes_then)
    show "consumes ps (advance ps)" using d by (rule advance_consumes)
  next
    fix u ps1
    assume l: "remaining ps1 < remaining ps"
    show "keeps ps1 (andThen (parseUnary rt pe k ps1) (\<lambda>e ps2. returns (Unary uop e) ps2))"
    proof (rule keeps_then)
      show "keeps ps1 (parseUnary rt pe k ps1)"
        using Suc.prems l by (intro consumes_keeps Suc.IH) simp_all
    qed (rule keeps_refl)
  qed
  have m: "consumes ps (parseMember rt pe k ps)"
    using Suc.prems by (intro parseMember_consumes [of pe b]) simp_all
  show ?case using op [of NOT] op [of NEGATE] m by auto
qed

lemma good_parseUnary: "good pe b \<Longrightarrow> good (parseUnary rt pe (Suc b)) (Suc b)"
  unfolding good_def [of "parseUnary rt pe (Suc b)"]
  by (intro allI impI parseUnary_consumes [of pe b]) simp_all

subsection \<open>Binary operators\<close>

lemma multiplicationLoop_keeps:
  "good operand b \<Longrightarrow> remaining ps \<le> b \<Longrightarrow> remaining ps < k \<Longrightarrow>
   keeps ps (multiplicationLoop operand k left ps)"
proof (induction k arbitrary: left ps)
  case 0
  then show ?case by simp
next
  case (Suc k)
  show ?case
  proof (cases "tokType (current ps) = TK_STAR \<or> tokType (current ps) = TK_SLASH \<or>
         tokType (current ps) = TK_PERCENT")
    case False
    then show ?thesis by (simp add: keeps_refl)
  next
    case True
    then have c: "consumes ps (advance ps)" by (intro advance_consumes) auto
    have "keeps ps (andThen (advance ps) (\<lambda>_ ps1.
              andThen (operand ps1) (\<lambda>right ps2.
                let operator = (if tokType (current ps) = TK_STAR then MULTIPLY
                                else if tokType (current ps) = TK_SLASH then DIVIDE else MODULO)
                in multiplicationLoop operand k (Binary operator left right) ps2)))"
    proof (rule keeps_then_strict [OF c])
      fix u ps1
      assume l: "remaining ps1 < remaining ps"
      show "keeps ps1 (andThen (operand ps1) (\<lambda>right ps2.
                let operator = (if tokType (current ps) = TK_STAR then MULTIPLY
                                else if tokType (current ps) = TK_SLASH then DIVIDE else MODULO)
                in multiplicationLoop operand k (Binary operator left right) ps2))"
      proof (rule keeps_then_strict)
        show "consumes ps1 (operand ps1)" using Suc.prems l by (intro goodD [of operand b]) simp_all
      next
        fix right ps2
        assume "remaining ps2 < remaining ps1"
        then show "keeps ps2 (let operator = (if tokType (current ps) = TK_STAR then MULTIPLY
                                else if tokType (current ps) = TK_SLASH then DIVIDE else MODULO)
                in multiplicationLoop operand k (Binary operator left right) ps2)"
          unfolding Let_def using Suc.prems l by (intro Suc.IH) simp_all
      qed
    qed
    then show ?thesis using True by (simp add: Let_def)
  qed
qed

lemma additionLoop_keeps:
  "good operand b \<Longrightarrow> remaining ps \<le> b \<Longrightarrow> remaining ps < k \<Longrightarrow>
   keeps ps (additionLoop operand k left ps)"
proof (induction k arbitrary: left ps)
  case 0
  then show ?case by simp
next
  case (Suc k)
  show ?case
  proof (cases "tokType (current ps) = TK_PLUS \<or> tokType (current ps) = TK_MINUS")
    case False
    then show ?thesis by (simp add: keeps_refl)
  next
    case True
    then have c: "consumes ps (advance ps)" by (intro advance_consumes) auto
    have "keeps ps (andThen (advance ps) (\<lambda>_ ps1.
              andThen (operand ps1) (\<lambda>right ps2.
                additionLoop operand k
                  (Binary (if tokType (current ps) = TK_PLUS then ADD else SUBTRACT) left right) ps2)))"
    proof (rule keeps_then_strict [OF c])
      fix u ps1
      assume l: "remaining ps1 < remaining ps"
      show "keeps ps1 (andThen (operand ps1) (\<lambda>right ps2.
                additionLoop operand k
                  (Binary (if tokType (current ps) = TK_PLUS then ADD else SUBTRACT) left right) ps2))"
      proof (rule keeps_then_strict)
        show "consumes ps1 (operand ps1)" using Suc.prems l by (intro goodD [of operand b]) simp_all
      next
        fix right ps2
        assume "remaining ps2 < remaining ps1"
        then show "keeps ps2 (additionLoop operand k
                  (Binary (if tokType (current ps) = TK_PLUS then ADD else SUBTRACT) left right) ps2)"
          using Suc.prems l by (intro Suc.IH) simp_all
      qed
    qed
    then show ?thesis using True by (simp add: Let_def)
  qed
qed

lemma isRelationalOp_not_EOF: "isRelationalOp ty \<Longrightarrow> ty \<noteq> TK_EOF"
  by (auto simp: isRelationalOp_def)

lemma relationLoop_keeps:
  "good operand b \<Longrightarrow> remaining ps \<le> b \<Longrightarrow> remaining ps < k \<Longrightarrow>
   keeps ps (relationLoop operand k left ps)"
proof (induction k arbitrary: left ps)
  case 0
  then show ?case by simp
next
  case (Suc k)
  show ?case
  proof (cases "isRelationalOp (tokType (current ps))")
    case False
    then show ?thesis by (simp add: keeps_refl)
  next
    case True
    then have c: "consumes ps (advance ps)"
      by (intro advance_consumes isRelationalOp_not_EOF)
    have "keeps ps (andThen (advance ps) (\<lambda>_ ps1.
              andThen (operand ps1) (\<lambda>right ps2.
                case toBinaryOp (tokType (current ps)) ps2 of
                  Inl e \<Rightarrow> raises e
                | Inr bop \<Rightarrow> relationLoop operand k (Binary bop left right) ps2)))"
    proof (rule keeps_then_strict [OF c])
      fix u ps1
      assume l: "remaining ps1 < remaining ps"
      show "keeps ps1 (andThen (operand ps1) (\<lambda>right ps2.
                case toBinaryOp (tokType (current ps)) ps2 of
                  Inl e \<Rightarrow> raises e
                | Inr bop \<Rightarrow> relationLoop operand k (Binary bop left right) ps2))"
      proof (rule keeps_then_strict)
        show "consumes ps1 (operand ps1)" using Suc.prems l by (intro goodD [of operand b]) simp_all
      next
        fix right ps2
        assume "remaining ps2 < remaining ps1"
        then have "keeps ps2 (relationLoop operand k (Binary bop left right) ps2)" for bop
          using Suc.prems l by (intro Suc.IH) simp_all
        then show "keeps ps2 (case toBinaryOp (tokType (current ps)) ps2 of
                  Inl e \<Rightarrow> raises e
                | Inr bop \<Rightarrow> relationLoop operand k (Binary bop left right) ps2)"
          by (simp split: sum.splits)
      qed
    qed
    then show ?thesis using True by (simp add: Let_def)
  qed
qed

lemma logicalLoop_step:
  assumes g: "good operand b" and b: "remaining ps \<le> b" and ty: "ty \<noteq> TK_EOF"
    and ih: "\<And>right ps2. remaining ps2 < remaining ps \<Longrightarrow> keeps ps2 (loop right ps2)"
  shows "keeps ps (andThen (match ty ps) (\<lambda>matched ps1.
       if matched then andThen (operand ps1) (\<lambda>right ps2. loop right ps2)
       else returns left ps1))"
proof (rule keeps_then [OF match_keeps])
  fix matched ps1
  assume m: "match ty ps = Some (Inr (matched, ps1))"
  have "keeps ps1 (andThen (operand ps1) (\<lambda>right ps2. loop right ps2))" if matched
  proof -
    from m that have l: "remaining ps1 < remaining ps" using match_True [OF _ ty] by simp
    show ?thesis
    proof (rule keeps_then_strict)
      show "consumes ps1 (operand ps1)" using g b l by (intro goodD [of operand b]) simp_all
    next
      fix right ps2
      assume "remaining ps2 < remaining ps1"
      then show "keeps ps2 (loop right ps2)" using l by (intro ih) simp
    qed
  qed
  then show "keeps ps1 (if matched then andThen (operand ps1) (\<lambda>right ps2. loop right ps2)
       else returns left ps1)"
    by (simp add: keeps_refl)
qed

lemma conditionalAndLoop_keeps:
  "good operand b \<Longrightarrow> remaining ps \<le> b \<Longrightarrow> remaining ps < k \<Longrightarrow>
   keeps ps (conditionalAndLoop operand k left ps)"
proof (induction k arbitrary: left ps)
  case 0
  then show ?case by simp
next
  case (Suc k)
  have "keeps ps (andThen (match TK_LOGICAL_AND ps) (\<lambda>matched ps1.
       if matched then
         andThen (operand ps1) (\<lambda>right ps2.
           conditionalAndLoop operand k (Binary LOGICAL_AND left right) ps2)
       else returns left ps1))"
    using Suc.prems by (intro logicalLoop_step [of operand b] Suc.IH) simp_all
  then show ?case by simp
qed

lemma conditionalOrLoop_keeps:
  "good operand b \<Longrightarrow> remaining ps \<le> b \<Longrightarrow> remaining ps < k \<Longrightarrow>
   keeps ps (conditionalOrLoop operand k left ps)"
proof (induction k arbitrary: left ps)
  case 0
  then show ?case by simp
next
  case (Suc k)
  have "keeps ps (andThen (match TK_LOGICAL_OR ps) (\<lambda>matched ps1.
       if matched then
         andThen (operand ps1) (\<lambda>right ps2.
           conditionalOrLoop operand k (Binary LOGICAL_OR left right) ps2)
       else returns left ps1))"
    using Suc.prems by (intro logicalLoop_step [of operand b] Suc.IH) simp_all
  then show ?case by simp
qed

lemma good_level:
  assumes g: "good operand b"
    and l: "\<And>left ps. remaining ps \<le> b \<Longrightarrow> remaining ps < b \<Longrightarrow> keeps ps (loop left ps)"
  shows "good (\<lambda>ps. andThen (operand ps) (\<lambda>left ps1. loop left ps1)) b"
  unfolding good_def
proof (intro allI impI)
  fix ps
  assume r: "remaining ps < b"
  show "consumes ps (andThen (operand ps) (\<lambda>left ps1. loop left ps1))"
  proof (rule consumes_then)
    show "consumes ps (operand ps)" using g r by (rule goodD)
  next
    fix left ps1
    assume "remaining ps1 < remaining ps"
    then show "keeps ps1 (loop left ps1)" using r by (intro l) simp_all
  qed
qed

lemma good_parseMultiplication:
  assumes "good pe b"
  shows "good (parseMultiplication rt pe (Suc b)) (Suc b)"
proof -
  have "good (\<lambda>ps. andThen (parseUnary rt pe (Suc b) ps)
          (\<lambda>left ps1. multiplicationLoop (parseUnary rt pe (Suc b)) (Suc b) left ps1)) (Suc b)"
    by (intro good_level good_parseUnary [OF assms] multiplicationLoop_keeps [of _ "Suc b"]
          good_parseUnary [OF assms])
  then show ?thesis by (simp add: good_def parseMultiplication_def)
qed

lemma good_parseAddition:
  assumes "good pe b"
  shows "good (parseAddition rt pe (Suc b)) (Suc b)"
proof -
  have "good (\<lambda>ps. andThen (parseMultiplication rt pe (Suc b) ps)
          (\<lambda>left ps1. additionLoop (parseMultiplication rt pe (Suc b)) (Suc b) left ps1)) (Suc b)"
    by (intro good_level good_parseMultiplication [OF assms] additionLoop_keeps [of _ "Suc b"])
  then show ?thesis by (simp add: good_def parseAddition_def)
qed

lemma good_parseRelation:
  assumes "good pe b"
  shows "good (parseRelation rt pe (Suc b)) (Suc b)"
proof -
  have "good (\<lambda>ps. andThen (parseAddition rt pe (Suc b) ps)
          (\<lambda>left ps1. relationLoop (parseAddition rt pe (Suc b)) (Suc b) left ps1)) (Suc b)"
    by (intro good_level good_parseAddition [OF assms] relationLoop_keeps [of _ "Suc b"])
  then show ?thesis by (simp add: good_def parseRelation_def)
qed

lemma good_parseConditionalAnd:
  assumes "good pe b"
  shows "good (parseConditionalAnd rt pe (Suc b)) (Suc b)"
proof -
  have "good (\<lambda>ps. andThen (parseRelation rt pe (Suc b) ps)
          (\<lambda>left ps1. conditionalAndLoop (parseRelation rt pe (Suc b)) (Suc b) left ps1)) (Suc b)"
    by (intro good_level good_parseRelation [OF assms] conditionalAndLoop_keeps [of _ "Suc b"])
  then show ?thesis by (simp add: good_def parseConditionalAnd_def)
qed

lemma good_parseConditionalOr:
  assumes "good pe b"
  shows "good (parseConditionalOr rt pe (Suc b)) (Suc b)"
proof -
  have "good (\<lambda>ps. andThen (parseConditionalAnd rt pe (Suc b) ps)
          (\<lambda>left ps1. conditionalOrLoop (parseConditionalAnd rt pe (Suc b)) (Suc b) left ps1)) (Suc b)"
    by (intro good_level good_parseConditionalAnd [OF assms] conditionalOrLoop_keeps [of _ "Suc b"])
  then show ?thesis by (simp add: good_def parseConditionalOr_def)
qed

subsection \<open>Expressions\<close>

lemma consumes_total: "consumes ps r \<Longrightarrow> r \<noteq> None"
  by (cases r) (simp_all add: consumes_def)

lemma good_parseExpr: "good (parseExpr rt (Suc n)) n"
proof (induction n)
  case 0
  show ?case by (simp add: good_def)
next
  case (Suc m)
  let ?pe = "parseExpr rt (Suc m)"
  have or: "good (parseConditionalOr rt ?pe (Suc m)) (Suc m)"
    by (rule good_parseConditionalOr [OF Suc])
  show ?case
    unfolding good_def
  proof (intro allI impI)
    fix ps
    assume r: "remaining ps < Suc m"
    have "consumes ps
      (andThen (parseConditionalOr rt ?pe (Suc m) ps) (\<lambda>condition ps1.
         andThen (match TK_QUESTION ps1) (\<lambda>matched ps2.
           if matched then
             andThen (parseConditionalOr rt ?pe (Suc m) ps2) (\<lambda>thenExpr ps3.
               andThen (expect TK_COLON ps3) (\<lambda>_ ps4.
                 andThen (?pe ps4) (\<lambda>otherwiseExpr ps5.
                   returns (Conditional condition thenExpr otherwiseExpr) ps5)))
           else returns condition ps2)))"
    proof (rule consumes_then)
      show "consumes ps (parseConditionalOr rt ?pe (Suc m) ps)" using or r by (rule goodD)
    next
      fix condition ps1
      assume l1: "remaining ps1 < remaining ps"
      show "keeps ps1 (andThen (match TK_QUESTION ps1) (\<lambda>matched ps2.
           if matched then
             andThen (parseConditionalOr rt ?pe (Suc m) ps2) (\<lambda>thenExpr ps3.
               andThen (expect TK_COLON ps3) (\<lambda>_ ps4.
                 andThen (?pe ps4) (\<lambda>otherwiseExpr ps5.
                   returns (Conditional condition thenExpr otherwiseExpr) ps5)))
           else returns condition ps2))"
      proof (rule keeps_then [OF match_keeps], rule keeps_if)
        fix matched ps2
        assume l2: "remaining ps2 \<le> remaining ps1"
        show "keeps ps2 (andThen (parseConditionalOr rt ?pe (Suc m) ps2) (\<lambda>thenExpr ps3.
               andThen (expect TK_COLON ps3) (\<lambda>_ ps4.
                 andThen (?pe ps4) (\<lambda>otherwiseExpr ps5.
                   returns (Conditional condition thenExpr otherwiseExpr) ps5))))"
        proof (rule keeps_then_strict)
          show "consumes ps2 (parseConditionalOr rt ?pe (Suc m) ps2)"
            using r l1 l2 by (intro goodD [OF or]) simp
        next
          fix thenExpr ps3
          assume l3: "remaining ps3 < remaining ps2"
          show "keeps ps3 (andThen (expect TK_COLON ps3) (\<lambda>_ ps4.
                 andThen (?pe ps4) (\<lambda>otherwiseExpr ps5.
                   returns (Conditional condition thenExpr otherwiseExpr) ps5)))"
          proof (rule keeps_then [OF expect_keeps])
            fix u ps4
            assume l4: "remaining ps4 \<le> remaining ps3"
            show "keeps ps4 (andThen (?pe ps4) (\<lambda>otherwiseExpr ps5.
                   returns (Conditional condition thenExpr otherwiseExpr) ps5))"
            proof (rule keeps_then)
              show "keeps ps4 (?pe ps4)"
                using r l1 l2 l3 l4 by (intro consumes_keeps goodD [OF Suc]) simp
            qed (rule keeps_refl)
          qed
        qed
      next
        fix matched ps2
        show "keeps ps2 (returns condition ps2)" by (rule keeps_refl)
      qed
    qed
    then show "consumes ps (parseExpr rt (Suc (Suc m)) ps)"
      by (subst parseExpr.simps)
  qed
qed

lemma newParser_remaining:
  assumes "newParser s = Inr ps"
  shows "remaining ps \<le> length s"
proof (cases "nextToken (newLexer s)")
  case (Inl e)
  with assms show ?thesis by (simp add: newParser_def)
next
  case (Inr p)
  obtain t lx where p: "p = (t, lx)" by (cases p)
  with assms Inr have s: "ps = \<lparr> lexer = lx, current = t \<rparr>" by (simp add: newParser_def)
  from Inr p have "nextToken (newLexer s) = Inr (t, lx)" by simp
  from nextToken_pending [OF this] s show ?thesis
    by (simp add: remaining_def pending_def newLexer_def)
qed

text \<open>
  With a bound above the number of tokens left, which is at most one more than the number
  of characters left, the parser is not cut off: it returns an expression or raises.
\<close>

lemma parseExpr_returns:
  "remaining ps < n \<Longrightarrow> parseExpr rt (Suc n) ps \<noteq> None"
  by (rule consumes_total [of ps]) (rule goodD [OF good_parseExpr])

lemma parse_returns: "length s < n \<Longrightarrow> parse rt (Suc n) s \<noteq> None"
proof (cases "newParser s")
  case (Inl e)
  then show ?thesis by (simp add: parse_def)
next
  case (Inr ps)
  assume "length s < n"
  with newParser_remaining [OF Inr] have "remaining ps < n" by simp
  from parseExpr_returns [OF this, of rt] Inr show ?thesis
    by (auto simp: parse_def simp del: parseExpr.simps split: option.splits sum.splits)
qed

lemma parseMapOrStructLiteral_returns_or_raises:
  "remaining ps \<le> n \<Longrightarrow>
   parseMapOrStructLiteral (parseExpr rt (Suc n)) (Suc n) typeName ps \<noteq> None"
  by (rule consumes_total [of ps])
     (rule parseMapOrStructLiteral_consumes [OF good_parseExpr], simp_all)

section \<open>The claims about the interpreter\<close>

subsection \<open>Logical operators\<close>

text \<open>
  C1, as stated, fails: the claim has the interpreter raise when an evaluated operand of
  \<open>&&\<close> or \<open>||\<close> is not a boolean. \<open>visitBinary\<close> only tests \<open>left !== true\<close>
  and \<open>=== true\<close>, so \<open>1 && true\<close> is \<open>false\<close> and nothing is raised.
\<close>

theorem logical_nonboolean_counterexample:
  "fst (evaluate exampleHost
     (Binary LOGICAL_AND (Literal (VNum 1) INT_LIT) (Literal (VBool True) BOOL)) Map.empty)
   = Inr (VBool False)"
  by simp

text \<open>
  C1, amended: \<open>&&\<close> and \<open>||\<close> short-circuit. When the left operand of \<open>&&\<close>
  evaluates to anything but \<open>true\<close> the result is \<open>false\<close>, and when the left operand
  of \<open>||\<close> evaluates to \<open>true\<close> the result is \<open>true\<close>, whatever the right operand is
  (it is not evaluated, so an error it would raise is not raised). Otherwise the result is
  whether the right operand evaluates to \<open>true\<close>. An operand that is not a boolean raises
  nothing: it counts as not \<open>true\<close>. The only errors are those that evaluating an operand
  raises.
\<close>

theorem logical_short_circuit:
  "(fst (evaluate h l env) = Inr lv \<and> lv \<noteq> VBool True \<longrightarrow>
      fst (evaluate h (Binary LOGICAL_AND l r) env) = Inr (VBool False)) \<and>
   (fst (evaluate h l env) = Inr (VBool True) \<longrightarrow>
      fst (evaluate h (Binary LOGICAL_OR l r) env) = Inr (VBool True)) \<and>
   (fst (evaluate h l env) = Inr (VBool True) \<longrightarrow>
      fst (evaluate h (Binary LOGICAL_AND l r) env) =
        (case fst (evaluate h r env) of Inl e \<Rightarrow> Inl e | Inr rv \<Rightarrow> Inr (VBool (rv = VBool True)))) \<and>
   (fst (evaluate h l env) = Inr lv \<and> lv \<noteq> VBool True \<longrightarrow>
      fst (evaluate h (Binary LOGICAL_OR l r) env) =
        (case fst (evaluate h r env) of Inl e \<Rightarrow> Inl e | Inr rv \<Rightarrow> Inr (VBool (rv = VBool True)))) \<and>
   (fst (evaluate h l env) = Inl e \<longrightarrow>
      fst (evaluate h (Binary LOGICAL_AND l r) env) = Inl e \<and>
      fst (evaluate h (Binary LOGICAL_OR l r) env) = Inl e)"
  by (simp add: evaluate_and evaluate_or del: evaluate.simps)

theorem logical_short_circuit_witness:
  "fst (evaluate exampleHost
          (Binary LOGICAL_AND (Literal (VNum 1) INT_LIT)
             (Binary DIVIDE (Literal (VNum 1) INT_LIT) (Literal (VNum 0) INT_LIT))) Map.empty)
     = Inr (VBool False) \<and>
   fst (evaluate exampleHost
          (Binary LOGICAL_OR (Literal (VBool True) BOOL)
             (Binary DIVIDE (Literal (VNum 1) INT_LIT) (Literal (VNum 0) INT_LIT))) Map.empty)
     = Inr (VBool True)"
  using logical_short_circuit [of exampleHost "Literal (VNum 1) INT_LIT" Map.empty "VNum 1"
          "Binary DIVIDE (Literal (VNum 1) INT_LIT) (Literal (VNum 0) INT_LIT)"]
        logical_short_circuit [of exampleHost "Literal (VBool True) BOOL" Map.empty "VBool True"
          "Binary DIVIDE (Literal (VNum 1) INT_LIT) (Literal (VNum 0) INT_LIT)"]
  by simp

subsection \<open>Division\<close>




subsection \<open>Macros and the loop variable\<close>


text \<open>
  The example of the specification: \<open>[1,2,3].map(x, x*2)\<close> with \<open>x\<close> bound to \<open>100\<close>,
  and a body that raises at the second element.
\<close>

lemma macro_scoping_example:
  "evaluate exampleHost
     (Call (Some (ListExpression [Literal (VNum 1) INT_LIT, Literal (VNum 2) INT_LIT, Literal (VNum 3) INT_LIT]))
        ''map'' [Identifier ''x'', Binary MULTIPLY (Identifier ''x'') (Literal (VNum 2) INT_LIT)] True)
     [''x'' \<mapsto> VNum 100]
   = (Inr (VList [VNum 2, VNum 4, VNum 6]), [''x'' \<mapsto> VNum 100])"
  by (simp add: evaluateMacro_def visitBinaryOp_def restore_def)

lemma macro_scoping_error_example:
  "evaluate exampleHost
     (Call (Some (ListExpression [Literal (VNum 1) INT_LIT, Literal VNull NULL_VALUE, Literal (VNum 3) INT_LIT]))
        ''map'' [Identifier ''x'', Binary SUBTRACT (Identifier ''x'') (Literal (VNum 2) INT_LIT)] True)
     [''x'' \<mapsto> VNum 100]
   = (Inl (EvaluationError ''Subtraction requires numeric operands''), [''x'' \<mapsto> VNum 100])"
  by (simp add: evaluateMacro_def visitBinaryOp_def restore_def)

subsection \<open>The macro existsOne\<close>

text \<open>
  C6: \<open>existsOne\<close> counts the elements whose predicate evaluates to exactly \<open>true\<close>.
  As soon as two elements of a prefix of the list have matched, the result is \<open>false\<close>,
  whatever follows in the list (the predicate is not evaluated on the remaining
  elements, so an error it would raise there is not raised). When the predicate
  evaluates without an error on every element, the result is whether exactly one
  element matched. On the empty list the result is \<open>false\<close>.
\<close>

theorem existsOne_counts:
  "((\<forall>x \<in> set pre. fst (evaluate h body (env(v \<mapsto> x))) = Inr (p x)) \<and>
    fst (evaluate h t env) = Inr (VList (pre @ rest)) \<and>
    2 \<le> length (filter (\<lambda>x. p x = VBool True) pre) \<longrightarrow>
      fst (evaluate h (Call (Some t) ''existsOne'' [Identifier v, body] True) env) =
        Inr (VBool False)) \<and>
   ((\<forall>x \<in> set items. fst (evaluate h body (env(v \<mapsto> x))) = Inr (p x)) \<and>
    fst (evaluate h t env) = Inr (VList items) \<longrightarrow>
      fst (evaluate h (Call (Some t) ''existsOne'' [Identifier v, body] True) env) =
        Inr (VBool (length (filter (\<lambda>x. p x = VBool True) items) = 1))) \<and>
   (fst (evaluate h t env) = Inr (VList []) \<longrightarrow>
      fst (evaluate h (Call (Some t) ''existsOne'' [Identifier v, body] True) env) =
        Inr (VBool False))"
proof (intro conjI impI)
  assume a: "(\<forall>x \<in> set pre. fst (evaluate h body (env(v \<mapsto> x))) = Inr (p x)) \<and>
    fst (evaluate h t env) = Inr (VList (pre @ rest)) \<and>
    2 \<le> length (filter (\<lambda>x. p x = VBool True) pre)"
  have "fst (macroExistsOne (evaluate h body) v (pre @ rest) 0 env) = Inr (VBool False)"
    by (rule macroExistsOne_short [where p = p and env = env])
       (use a in \<open>simp_all add: evaluate_env agree_refl del: fun_upd_apply\<close>)
  then show "fst (evaluate h (Call (Some t) ''existsOne'' [Identifier v, body] True) env) =
        Inr (VBool False)"
    using a by (simp add: evaluate_macro_call evaluateMacro_existsOne del: evaluate.simps)
next
  assume a: "(\<forall>x \<in> set items. fst (evaluate h body (env(v \<mapsto> x))) = Inr (p x)) \<and>
    fst (evaluate h t env) = Inr (VList items)"
  have "fst (macroExistsOne (evaluate h body) v items 0 env) =
      Inr (VBool (0 + length (filter (\<lambda>x. p x = VBool True) items) = 1))"
    by (rule macroExistsOne_count [where p = p and env = env])
       (use a in \<open>simp_all add: evaluate_env agree_refl del: fun_upd_apply\<close>)
  then show "fst (evaluate h (Call (Some t) ''existsOne'' [Identifier v, body] True) env) =
        Inr (VBool (length (filter (\<lambda>x. p x = VBool True) items) = 1))"
    using a by (simp add: evaluate_macro_call evaluateMacro_existsOne del: evaluate.simps)
next
  assume "fst (evaluate h t env) = Inr (VList [])"
  then show "fst (evaluate h (Call (Some t) ''existsOne'' [Identifier v, body] True) env) =
        Inr (VBool False)"
    by (simp add: evaluate_macro_call evaluateMacro_existsOne del: evaluate.simps)
qed

theorem existsOne_counts_witness:
  "fst (evaluate exampleHost
      (Call (Some (ListExpression
         [Literal (VNum 2) INT_LIT, Literal (VNum 3) INT_LIT, Literal (VStr ''a'') STRING]))
         ''existsOne''
         [Identifier ''x'', Binary GREATER (Identifier ''x'') (Literal (VNum 1) INT_LIT)] True)
      Map.empty) = Inr (VBool False) \<and>
   fst (evaluate exampleHost
      (Call (Some (ListExpression
         [Literal (VNum 1) INT_LIT, Literal (VNum 2) INT_LIT, Literal (VNum 3) INT_LIT]))
         ''existsOne''
         [Identifier ''x'', Binary EQUAL (Identifier ''x'') (Literal (VNum 2) INT_LIT)] True)
      Map.empty) = Inr (VBool True)"
proof -
  let ?gt = "Binary GREATER (Identifier ''x'') (Literal (VNum 1) INT_LIT)"
  let ?eq = "Binary EQUAL (Identifier ''x'') (Literal (VNum 2) INT_LIT)"
  let ?t1 = "ListExpression
         [Literal (VNum 2) INT_LIT, Literal (VNum 3) INT_LIT, Literal (VStr ''a'') STRING]"
  let ?t2 = "ListExpression
         [Literal (VNum 1) INT_LIT, Literal (VNum 2) INT_LIT, Literal (VNum 3) INT_LIT]"
  have 1: "\<forall>x \<in> set [VNum 2, VNum 3].
      fst (evaluate exampleHost ?gt (Map.empty(''x'' \<mapsto> x))) = Inr (VBool True)"
    by (simp add: visitBinaryOp_def opCompare_def)
  have 2: "fst (evaluate exampleHost ?t1 Map.empty) = Inr (VList ([VNum 2, VNum 3] @ [VStr ''a'']))"
    by simp
  have 3: "\<forall>x \<in> set [VNum 1, VNum 2, VNum 3].
      fst (evaluate exampleHost ?eq (Map.empty(''x'' \<mapsto> x))) = Inr (VBool (x = VNum 2))"
    by (simp add: visitBinaryOp_def)
  have 4: "fst (evaluate exampleHost ?t2 Map.empty) = Inr (VList [VNum 1, VNum 2, VNum 3])"
    by simp
  have 5: "2 \<le> length (filter (\<lambda>x. VBool True = VBool True) [VNum 2, VNum 3])" by simp
  have 6: "length (filter (\<lambda>x. VBool (x = VNum 2) = VBool True) [VNum 1, VNum 2, VNum 3]) = 1"
    by simp
  show ?thesis
    using existsOne_counts [of "[VNum 2, VNum 3]" exampleHost ?gt Map.empty "''x''"
            "\<lambda>x. VBool True" ?t1 "[VStr ''a'']" "[VNum 1, VNum 2, VNum 3]"]
          existsOne_counts [of "[VNum 1, VNum 2, VNum 3]" exampleHost ?eq Map.empty "''x''"
            "\<lambda>x. VBool (x = VNum 2)" ?t2 "[]" "[VNum 1, VNum 2, VNum 3]"]
          1 2 3 4 5 6
    by (simp only: simp_thms)
qed

subsection \<open>Equality\<close>



text \<open>The examples of the specification, evaluated from their syntax trees.\<close>

lemma deepEquals_examples:
  "fst (evaluate exampleHost
     (Binary EQUAL
        (MapExpression [(Literal (VStr ''a'') STRING, Literal (VNum 1) INT_LIT),
                        (Literal (VStr ''b'') STRING, Literal (VNum 2) INT_LIT)])
        (MapExpression [(Literal (VStr ''b'') STRING, Literal (VNum 2) INT_LIT),
                        (Literal (VStr ''a'') STRING, Literal (VNum 1) INT_LIT)])) Map.empty)
     = Inr (VBool True)"
  "fst (evaluate exampleHost
     (Binary EQUAL
        (ListExpression [Literal (VNum 1) INT_LIT, Literal (VNum 2) INT_LIT, Literal (VNum 3) INT_LIT])
        (ListExpression [Literal (VNum 1) INT_LIT, Literal (VNum 2) INT_LIT, Literal (VNum 3) INT_LIT]))
     Map.empty) = Inr (VBool True)"
  "fst (evaluate exampleHost
     (Binary EQUAL
        (ListExpression [Literal (VNum 1) INT_LIT, Literal (VNum 2) INT_LIT])
        (ListExpression [Literal (VNum 1) INT_LIT, Literal (VNum 2) INT_LIT, Literal (VNum 3) INT_LIT]))
     Map.empty) = Inr (VBool False)"
  by (simp_all add: visitBinaryOp_def)

subsection \<open>Ordering\<close>




subsection \<open>Keys of map literals\<close>



subsection \<open>The bindings of the caller\<close>



section \<open>Lexer: lines and columns\<close>

text \<open>
  C8, as stated, fails: the claim has every character other than \<open>\r\<close> (alone or as the
  head of \<open>\r\n\<close>) advance the column by one. \<open>Lexer.step\<close> has a third branch: a lone
  \<open>\n\<close> also advances the line and resets the column to 1, so stepping over the one
  character input \<open>\n\<close> ends at line 2, column 1, not at line 1, column 2.
\<close>

theorem newline_not_column_counterexample:
  "line (step (newLexer [CHR 0x0A])) = 2 \<and> column (step (newLexer [CHR 0x0A])) = 1"
  by (simp add: step_def newLexer_def)

text \<open>
  C8, amended: one \<open>step\<close> over a \<open>\r\<close> advances the line by exactly one and resets the
  column to 1, consuming a directly following \<open>\n\<close> with it (a CRLF pair is one newline);
  one \<open>step\<close> over a lone \<open>\n\<close> does the same; one \<open>step\<close> over any other character
  keeps the line and advances the column by exactly one. Consequently the positions of
  the tokens that successive calls of \<open>token\<close> produce on any input, from a new lexer,
  are non-decreasing in (line, column) order, their lines are non-decreasing, and every
  line and column is at least 1.
\<close>

theorem lexer_positions:
  "(position lx < length (input lx) \<longrightarrow>
      (input lx ! position lx = CHR 0x0D \<longrightarrow>
         line (step lx) = line lx + 1 \<and> column (step lx) = 1 \<and>
         position (step lx) =
           (if charAt lx (position lx + 1) = Some (CHR 0x0A) then position lx + 2
            else position lx + 1)) \<and>
      (input lx ! position lx = CHR 0x0A \<longrightarrow>
         line (step lx) = line lx + 1 \<and> column (step lx) = 1 \<and>
         position (step lx) = position lx + 1) \<and>
      (input lx ! position lx \<noteq> CHR 0x0D \<and> input lx ! position lx \<noteq> CHR 0x0A \<longrightarrow>
         line (step lx) = line lx \<and> column (step lx) = column lx + 1 \<and>
         position (step lx) = position lx + 1)) \<and>
   sorted_wrt posLe (map tokPos (scan n (newLexer s))) \<and>
   sorted (map tokLine (scan n (newLexer s))) \<and>
   (\<forall>t \<in> set (scan n (newLexer s)). oneBased (tokPos t))"
proof -
  have st: "position lx < length (input lx) \<longrightarrow>
      (input lx ! position lx = CHR 0x0D \<longrightarrow>
         line (step lx) = line lx + 1 \<and> column (step lx) = 1 \<and>
         position (step lx) =
           (if charAt lx (position lx + 1) = Some (CHR 0x0A) then position lx + 2
            else position lx + 1)) \<and>
      (input lx ! position lx = CHR 0x0A \<longrightarrow>
         line (step lx) = line lx + 1 \<and> column (step lx) = 1 \<and>
         position (step lx) = position lx + 1) \<and>
      (input lx ! position lx \<noteq> CHR 0x0D \<and> input lx ! position lx \<noteq> CHR 0x0A \<longrightarrow>
         line (step lx) = line lx \<and> column (step lx) = column lx + 1 \<and>
         position (step lx) = position lx + 1)"
    by (simp add: step_def Let_def charAt_def)
  have ob: "oneBased (lexPos (newLexer s))" by (simp add: oneBased_def lexPos_def newLexer_def)
  have so: "sorted_wrt posLe (map tokPos (scan n (newLexer s)))"
    using scan_positions [of n "newLexer s"] by simp
  have one: "\<forall>t \<in> set (scan n (newLexer s)). oneBased (tokPos t)"
    using scan_positions [of n "newLexer s"] ob by simp
  show ?thesis using st so sorted_lines [OF so] one by (simp only: simp_thms)
qed


text \<open>
  The input \<open>a\r\nb\nc\<close>: the step over \<open>\r\n\<close> at position 1, the step over the lone
  \<open>\n\<close> at position 4, the step over \<open>a\<close>, and the positions of the first five tokens.
\<close>

theorem lexer_positions_witness:
  "line (step ((newLexer threeLines)\<lparr>position := 1\<rparr>)) = 2 \<and>
   column (step ((newLexer threeLines)\<lparr>position := 1\<rparr>)) = 1 \<and>
   position (step ((newLexer threeLines)\<lparr>position := 1\<rparr>)) = 3 \<and>
   line (step ((newLexer threeLines)\<lparr>position := 4\<rparr>)) = 2 \<and>
   position (step ((newLexer threeLines)\<lparr>position := 4\<rparr>)) = 5 \<and>
   column (step (newLexer threeLines)) = 2 \<and>
   sorted_wrt posLe [(1, 1), (2, 1), (3, 1), (3, 2), (3, 2)] \<and>
   oneBased (3, 2)"
proof -
  let ?cr = "(newLexer threeLines)\<lparr>position := 1\<rparr>"
  let ?lf = "(newLexer threeLines)\<lparr>position := 4\<rparr>"
  let ?a = "newLexer threeLines"
  have len: "position ?cr < length (input ?cr)" "position ?lf < length (input ?lf)"
    "position ?a < length (input ?a)"
    by (simp_all add: newLexer_def threeLines_def)
  have cr: "input ?cr ! position ?cr = CHR 0x0D" by (simp add: newLexer_def threeLines_def)
  have crlf: "charAt ?cr (position ?cr + 1) = Some (CHR 0x0A)"
    by (simp add: newLexer_def threeLines_def charAt_def)
  have lf: "input ?lf ! position ?lf = CHR 0x0A" by (simp add: newLexer_def threeLines_def)
  have a: "input ?a ! position ?a \<noteq> CHR 0x0D \<and> input ?a ! position ?a \<noteq> CHR 0x0A"
    by (simp add: newLexer_def threeLines_def)
  have l: "line ?cr = 1" "line ?lf = 1" "column ?a = 1" "position ?cr = 1" "position ?lf = 4"
    by (simp_all add: newLexer_def)
  note T1 = lexer_positions [where lx = ?cr and n = 5 and s = threeLines]
  note T2 = lexer_positions [where lx = ?lf and n = 5 and s = threeLines]
  note T3 = lexer_positions [where lx = ?a and n = 5 and s = threeLines]
  have 1: "line (step ?cr) = 2 \<and> column (step ?cr) = 1 \<and> position (step ?cr) = 3"
    using T1 [THEN conjunct1, THEN mp, OF len(1), THEN conjunct1, THEN mp, OF cr]
    using crlf l by simp
  have 2: "line (step ?lf) = 2 \<and> position (step ?lf) = 5"
    using T2 [THEN conjunct1, THEN mp, OF len(2), THEN conjunct2, THEN conjunct1, THEN mp, OF lf]
    by (simp add: l)
  have 3: "column (step ?a) = 2"
    using T3 [THEN conjunct1, THEN mp, OF len(3), THEN conjunct2, THEN conjunct2, THEN mp, OF a]
    by (simp add: l)
  have 4: "sorted_wrt posLe [(1, 1), (2, 1), (3, 1), (3, 2), (3, 2)]"
    using T1 [THEN conjunct2, THEN conjunct1]
    by (simp only: scan_threeLines) (simp add: tokPos_def)
  have "\<forall>t \<in> set (scan 5 (newLexer threeLines)). oneBased (tokPos t)"
    using T1 [THEN conjunct2, THEN conjunct2, THEN conjunct2] .
  then have 5: "oneBased (3, 2)"
    by (simp only: scan_threeLines) (simp add: tokPos_def)
  show ?thesis using 1 2 3 4 5 by (simp only: simp_thms)
qed


section \<open>Parser: struct and map literals\<close>

text \<open>
  C7: whenever \<open>parseMapOrStructLiteral\<close> returns an expression, the current token was
  the opening brace, and with the state after that brace: the expression is a struct,
  tagged with the type name it was given (or untagged), exactly when the first entry
  begins with a bare identifier immediately followed by a colon or a type name preceded
  the brace, and it is a map exactly when neither holds; when the token after the brace
  is the closing brace, it is the empty struct of the type name if there is one and the
  empty map otherwise. \<open>parsePrimary\<close> calls it without a type name at a brace, with
  the identifier as the type name at an identifier directly followed by a brace, and
  with the qualified name at a dotted name followed by a brace. The bound of the model
  does not cut the parser off when it is above the number of tokens left: then
  \<open>parseMapOrStructLiteral\<close> returns an expression or raises, and so does \<open>parse\<close> on
  every input shorter than the bound.
\<close>

theorem brace_literal_struct_or_map:
  "(parseMapOrStructLiteral pe n typeName ps = Some (Inr (e, ps')) \<longrightarrow>
      tokType (current ps) = TK_LBRACE \<and>
      (\<exists>ps1. advance ps = Some (Inr ((), ps1)) \<and>
         ((\<exists>fieldInits. e = Struct typeName fieldInits) \<longleftrightarrow>
            beginsWithField ps1 \<or> typeName \<noteq> None) \<and>
         ((\<exists>entries. e = MapExpression entries) \<longleftrightarrow>
            \<not> (beginsWithField ps1 \<or> typeName \<noteq> None)) \<and>
         (tokType (current ps1) = TK_RBRACE \<longrightarrow>
            e = (if typeName \<noteq> None then Struct typeName [] else MapExpression [])))) \<and>
   (tokType (current ps) = TK_LBRACE \<longrightarrow>
      parsePrimary rt pe n ps = parseMapOrStructLiteral pe n None ps) \<and>
   (tokType (current ps) = TK_IDENTIFIER \<and> advance ps = Some (Inr ((), ps2)) \<and>
    tokType (current ps2) = TK_LBRACE \<longrightarrow>
      parsePrimary rt pe n ps = parseMapOrStructLiteral pe n (Some (tokValue (current ps))) ps2) \<and>
   (tokType (current ps) = TK_IDENTIFIER \<and> advance ps = Some (Inr ((), ps2)) \<and>
    tokType (current ps2) = TK_DOT \<and> isQualifiedStructLiteral n ps2 = Some (Inr (True, ps3)) \<and>
    parseQualifiedIdent n (tokValue (current ps)) ps3 = Some (Inr (name, ps4)) \<longrightarrow>
      parsePrimary rt pe n ps = parseMapOrStructLiteral pe n (Some name) ps4) \<and>
   (remaining ps \<le> b \<longrightarrow>
      (\<exists>r. parseMapOrStructLiteral (parseExpr rt (Suc b)) (Suc b) typeName ps = Some r)) \<and>
   (length s < b \<longrightarrow> (\<exists>r. parse rt (Suc b) s = Some r))"
proof -
  have 1: "parseMapOrStructLiteral pe n typeName ps = Some (Inr (e, ps')) \<longrightarrow>
      tokType (current ps) = TK_LBRACE \<and>
      (\<exists>ps1. advance ps = Some (Inr ((), ps1)) \<and>
         ((\<exists>fieldInits. e = Struct typeName fieldInits) \<longleftrightarrow>
            beginsWithField ps1 \<or> typeName \<noteq> None) \<and>
         ((\<exists>entries. e = MapExpression entries) \<longleftrightarrow>
            \<not> (beginsWithField ps1 \<or> typeName \<noteq> None)) \<and>
         (tokType (current ps1) = TK_RBRACE \<longrightarrow>
            e = (if typeName \<noteq> None then Struct typeName [] else MapExpression [])))"
  proof
    assume a: "parseMapOrStructLiteral pe n typeName ps = Some (Inr (e, ps'))"
    from parseMapOrStructLiteral_returns [OF a] obtain ps1 where
      c: "tokType (current ps) = TK_LBRACE" and
      adv: "advance ps = Some (Inr ((), ps1))" and
      r: "if tokType (current ps1) = TK_RBRACE
          then e = (if typeName \<noteq> None then Struct typeName [] else MapExpression [])
          else if beginsWithField ps1 \<or> typeName \<noteq> None
               then (\<exists>fieldInits. e = Struct typeName fieldInits)
               else (\<exists>entries. e = MapExpression entries)"
      by blast
    have "((\<exists>fieldInits. e = Struct typeName fieldInits) \<longleftrightarrow>
            beginsWithField ps1 \<or> typeName \<noteq> None) \<and>
         ((\<exists>entries. e = MapExpression entries) \<longleftrightarrow>
            \<not> (beginsWithField ps1 \<or> typeName \<noteq> None)) \<and>
         (tokType (current ps1) = TK_RBRACE \<longrightarrow>
            e = (if typeName \<noteq> None then Struct typeName [] else MapExpression []))"
    proof (cases "tokType (current ps1) = TK_RBRACE")
      case True
      with r beginsWithField_not_RBRACE [OF True] show ?thesis by auto
    next
      case False
      with r show ?thesis by (cases "beginsWithField ps1 \<or> typeName \<noteq> None") auto
    qed
    from adv this have q: "advance ps = Some (Inr ((), ps1)) \<and>
         ((\<exists>fieldInits. e = Struct typeName fieldInits) \<longleftrightarrow>
            beginsWithField ps1 \<or> typeName \<noteq> None) \<and>
         ((\<exists>entries. e = MapExpression entries) \<longleftrightarrow>
            \<not> (beginsWithField ps1 \<or> typeName \<noteq> None)) \<and>
         (tokType (current ps1) = TK_RBRACE \<longrightarrow>
            e = (if typeName \<noteq> None then Struct typeName [] else MapExpression []))"
      by (rule conjI)
    have "\<exists>ps1. advance ps = Some (Inr ((), ps1)) \<and>
         ((\<exists>fieldInits. e = Struct typeName fieldInits) \<longleftrightarrow>
            beginsWithField ps1 \<or> typeName \<noteq> None) \<and>
         ((\<exists>entries. e = MapExpression entries) \<longleftrightarrow>
            \<not> (beginsWithField ps1 \<or> typeName \<noteq> None)) \<and>
         (tokType (current ps1) = TK_RBRACE \<longrightarrow>
            e = (if typeName \<noteq> None then Struct typeName [] else MapExpression []))"
      using q by (rule exI [of _ ps1])
    with c show "tokType (current ps) = TK_LBRACE \<and>
      (\<exists>ps1. advance ps = Some (Inr ((), ps1)) \<and>
         ((\<exists>fieldInits. e = Struct typeName fieldInits) \<longleftrightarrow>
            beginsWithField ps1 \<or> typeName \<noteq> None) \<and>
         ((\<exists>entries. e = MapExpression entries) \<longleftrightarrow>
            \<not> (beginsWithField ps1 \<or> typeName \<noteq> None)) \<and>
         (tokType (current ps1) = TK_RBRACE \<longrightarrow>
            e = (if typeName \<noteq> None then Struct typeName [] else MapExpression [])))"
      by (rule conjI)
  qed
  have 2: "tokType (current ps) = TK_LBRACE \<longrightarrow>
      parsePrimary rt pe n ps = parseMapOrStructLiteral pe n None ps"
    by (rule impI) (rule parsePrimary_LBRACE)
  have 3: "tokType (current ps) = TK_IDENTIFIER \<and> advance ps = Some (Inr ((), ps2)) \<and>
      tokType (current ps2) = TK_LBRACE \<longrightarrow>
      parsePrimary rt pe n ps = parseMapOrStructLiteral pe n (Some (tokValue (current ps))) ps2"
    by (intro impI, elim conjE) (rule parsePrimary_typed)
  have 4: "tokType (current ps) = TK_IDENTIFIER \<and> advance ps = Some (Inr ((), ps2)) \<and>
      tokType (current ps2) = TK_DOT \<and> isQualifiedStructLiteral n ps2 = Some (Inr (True, ps3)) \<and>
      parseQualifiedIdent n (tokValue (current ps)) ps3 = Some (Inr (name, ps4)) \<longrightarrow>
      parsePrimary rt pe n ps = parseMapOrStructLiteral pe n (Some name) ps4"
    by (intro impI, elim conjE) (rule parsePrimary_qualified)
  have 5: "remaining ps \<le> b \<longrightarrow>
      (\<exists>r. parseMapOrStructLiteral (parseExpr rt (Suc b)) (Suc b) typeName ps = Some r)"
    using parseMapOrStructLiteral_returns_or_raises [of ps b rt typeName] by blast
  have 6: "length s < b \<longrightarrow> (\<exists>r. parse rt (Suc b) s = Some r)"
    using parse_returns [of s b rt] by blast
  show ?thesis by (rule conjI [OF 1 conjI [OF 2 conjI [OF 3 conjI [OF 4 conjI [OF 5 6]]]]])
qed

text \<open>
  The examples of the specification: in \<open>{a:1}\<close> the first entry begins with a field,
  in \<open>{"a":1}\<close> it does not; \<open>{a:1}\<close> is an untagged struct, \<open>{"a":1}\<close> a map,
  \<open>Person{a:1}\<close> a struct tagged \<open>Person\<close>, \<open>a.b.C{}\<close> an empty struct tagged
  \<open>a.b.C\<close>, and \<open>{}\<close> the empty map; the bound 8 is above the 5 tokens left at the
  brace of \<open>{a:1}\<close>.
\<close>

theorem brace_literal_struct_or_map_witness:
  "beginsWithField (exampleState ''{a:1}'' 2 [] (Token TK_IDENTIFIER ''a'' 1 2)) \<and>
   beginsWithField
     (exampleState mapExample 4 [] (Token TK_STRING [CHR 0x22, CHR ''a'', CHR 0x22] 1 2)) = False \<and>
   parsePrimary exampleBuiltins (parseExpr exampleBuiltins 8) 8
     (exampleState ''{a:1}'' 1 [] (Token TK_LBRACE ''{'' 1 1)) =
     Some (Inr (Struct None [(''a'', Literal (VNum 1) INT_LIT)],
                exampleState ''{a:1}'' 5 [] (Token TK_EOF [] 1 6))) \<and>
   parsePrimary exampleBuiltins (parseExpr exampleBuiltins 8) 8
     (exampleState mapExample 1 [] (Token TK_LBRACE ''{'' 1 1)) =
     Some (Inr (MapExpression [(Literal (VStr ''a'') STRING, Literal (VNum 1) INT_LIT)],
                exampleState mapExample 7 [] (Token TK_EOF [] 1 8))) \<and>
   parsePrimary exampleBuiltins (parseExpr exampleBuiltins 8) 8
     (exampleState ''Person{a:1}'' 6 [] (Token TK_IDENTIFIER ''Person'' 1 1)) =
     Some (Inr (Struct (Some ''Person'') [(''a'', Literal (VNum 1) INT_LIT)],
                exampleState ''Person{a:1}'' 11 [] (Token TK_EOF [] 1 12))) \<and>
   parsePrimary exampleBuiltins (parseExpr exampleBuiltins 8) 8
     (exampleState ''a.b.C{}'' 1 [] (Token TK_IDENTIFIER ''a'' 1 1)) =
     Some (Inr (Struct (Some ''a.b.C'') [], exampleState ''a.b.C{}'' 7 [] (Token TK_EOF [] 1 8))) \<and>
   parsePrimary exampleBuiltins (parseExpr exampleBuiltins 8) 8
     (exampleState ''{}'' 1 [] (Token TK_LBRACE ''{'' 1 1)) =
     Some (Inr (MapExpression [], exampleState ''{}'' 2 [] (Token TK_EOF [] 1 3))) \<and>
   remaining (exampleState ''{a:1}'' 1 [] (Token TK_LBRACE ''{'' 1 1)) = 5 \<and>
   (\<exists>r. parseMapOrStructLiteral (parseExpr exampleBuiltins 8) 8 None
      (exampleState ''{a:1}'' 1 [] (Token TK_LBRACE ''{'' 1 1)) = Some r) \<and>
   (\<exists>r. parse exampleBuiltins 9 ''{a:1}'' = Some r) \<and>
   parse exampleBuiltins 9 ''{a:1}'' = Some (Inr (Struct None [(''a'', Literal (VNum 1) INT_LIT)]))"
proof -
  let ?pe = "parseExpr exampleBuiltins 8"
  let ?rt = "exampleBuiltins"
  let ?a = "exampleState ''{a:1}'' 1 [] (Token TK_LBRACE ''{'' 1 1)"
  let ?a1 = "exampleState ''{a:1}'' 2 [] (Token TK_IDENTIFIER ''a'' 1 2)"
  let ?m = "exampleState mapExample 1 [] (Token TK_LBRACE ''{'' 1 1)"
  let ?m1 = "exampleState mapExample 4 [] (Token TK_STRING [CHR 0x22, CHR ''a'', CHR 0x22] 1 2)"
  let ?p = "exampleState ''Person{a:1}'' 6 [] (Token TK_IDENTIFIER ''Person'' 1 1)"
  let ?p1 = "exampleState ''Person{a:1}'' 7 [] (Token TK_LBRACE ''{'' 1 7)"
  let ?q = "exampleState ''a.b.C{}'' 1 [] (Token TK_IDENTIFIER ''a'' 1 1)"
  let ?e = "exampleState ''{}'' 1 [] (Token TK_LBRACE ''{'' 1 1)"
  let ?e1 = "exampleState ''{}'' 2 [] (Token TK_RBRACE ''}'' 1 2)"
  note A = brace_literal_struct_or_map [where pe = ?pe and n = 8 and typeName = None and ps = ?a
      and rt = ?rt, THEN conjunct1, THEN mp, OF struct_example(1), THEN conjunct2]
  then obtain ps1 where a1: "advance ?a = Some (Inr ((), ps1))" and
    a2: "(\<exists>fieldInits. Struct None [(''a'', Literal (VNum 1) INT_LIT)] = Struct None fieldInits) \<longleftrightarrow>
           beginsWithField ps1 \<or> (None :: string option) \<noteq> None"
    by blast
  from a1 struct_example(2) have "ps1 = ?a1" by simp
  with a2 have 1: "beginsWithField ?a1" by simp
  note B = brace_literal_struct_or_map [where pe = ?pe and n = 8 and typeName = None and ps = ?m
      and rt = ?rt, THEN conjunct1, THEN mp, OF map_example(1), THEN conjunct2]
  then obtain ps1' where b1: "advance ?m = Some (Inr ((), ps1'))" and
    b2: "(\<exists>entries. MapExpression [(Literal (VStr ''a'') STRING, Literal (VNum 1) INT_LIT)] =
            MapExpression entries) \<longleftrightarrow>
           \<not> (beginsWithField ps1' \<or> (None :: string option) \<noteq> None)"
    by blast
  from b1 map_example(2) have "ps1' = ?m1" by simp
  with b2 have 2: "beginsWithField ?m1 = False" by simp
  have 3: "parsePrimary ?rt ?pe 8 ?a =
     Some (Inr (Struct None [(''a'', Literal (VNum 1) INT_LIT)],
                exampleState ''{a:1}'' 5 [] (Token TK_EOF [] 1 6)))"
    using brace_literal_struct_or_map [where pe = ?pe and n = 8 and ps = ?a and rt = ?rt,
        THEN conjunct2, THEN conjunct1, THEN mp]
    by (simp only: exampleState_current token.sel struct_example(1) simp_thms)
  have 4: "parsePrimary ?rt ?pe 8 ?m =
     Some (Inr (MapExpression [(Literal (VStr ''a'') STRING, Literal (VNum 1) INT_LIT)],
                exampleState mapExample 7 [] (Token TK_EOF [] 1 8)))"
    using brace_literal_struct_or_map [where pe = ?pe and n = 8 and ps = ?m and rt = ?rt,
        THEN conjunct2, THEN conjunct1, THEN mp]
    by (simp only: exampleState_current token.sel map_example(1) simp_thms)
  have 5: "parsePrimary ?rt ?pe 8 ?p =
     Some (Inr (Struct (Some ''Person'') [(''a'', Literal (VNum 1) INT_LIT)],
                exampleState ''Person{a:1}'' 11 [] (Token TK_EOF [] 1 12)))"
    using brace_literal_struct_or_map [where pe = ?pe and n = 8 and ps = ?p and rt = ?rt
        and ?ps2.0 = ?p1, THEN conjunct2, THEN conjunct2, THEN conjunct1, THEN mp]
    by (simp only: exampleState_current token.sel typed_example simp_thms)
  have 6: "parsePrimary ?rt ?pe 8 ?q =
     Some (Inr (Struct (Some ''a.b.C'') [], exampleState ''a.b.C{}'' 7 [] (Token TK_EOF [] 1 8)))"
    using brace_literal_struct_or_map [where pe = ?pe and n = 8 and ps = ?q and rt = ?rt
        and ?ps2.0 = "exampleState ''a.b.C{}'' 2 [] (Token TK_DOT ''.'' 1 2)"
        and ?ps3.0 = "exampleState ''a.b.C{}'' 6
           [Token TK_IDENTIFIER ''b'' 1 3, Token TK_DOT ''.'' 1 4, Token TK_IDENTIFIER ''C'' 1 5,
            Token TK_LBRACE ''{'' 1 6] (Token TK_DOT ''.'' 1 2)"
        and ?ps4.0 = "exampleState ''a.b.C{}'' 6 [] (Token TK_LBRACE ''{'' 1 6)"
        and name = "''a.b.C''",
        THEN conjunct2, THEN conjunct2, THEN conjunct2, THEN conjunct1, THEN mp]
    by (simp only: exampleState_current token.sel qualified_example simp_thms)
  note E = brace_literal_struct_or_map [where pe = ?pe and n = 8 and typeName = None and ps = ?e
      and rt = ?rt, THEN conjunct1, THEN mp, OF empty_example(1), THEN conjunct2]
  then obtain ps1'' where e1: "advance ?e = Some (Inr ((), ps1''))" and
    e2: "tokType (current ps1'') = TK_RBRACE \<longrightarrow>
           MapExpression [] =
             (if (None :: string option) \<noteq> None then Struct None [] else MapExpression [])"
    by blast
  have 7: "parsePrimary ?rt ?pe 8 ?e =
     Some (Inr (MapExpression [], exampleState ''{}'' 2 [] (Token TK_EOF [] 1 3)))"
    using brace_literal_struct_or_map [where pe = ?pe and n = 8 and ps = ?e and rt = ?rt,
        THEN conjunct2, THEN conjunct1, THEN mp]
    by (simp only: exampleState_current token.sel empty_example(1) simp_thms)
  have 8: "remaining ?a = 5"
    by (simp add: remaining_def pending_def exampleState_def)
  have le: "remaining ?a \<le> 7" by (simp only: 8)
  have 9: "\<exists>r. parseMapOrStructLiteral ?pe 8 None ?a = Some r"
    using brace_literal_struct_or_map [where ps = ?a and b = 7 and rt = ?rt and typeName = None,
        THEN conjunct2, THEN conjunct2, THEN conjunct2, THEN conjunct2, THEN conjunct1, THEN mp,
        OF le]
    by simp
  have 10: "\<exists>r. parse ?rt 9 ''{a:1}'' = Some r"
    using brace_literal_struct_or_map [where s = "''{a:1}''" and b = 8 and rt = ?rt,
        THEN conjunct2, THEN conjunct2, THEN conjunct2, THEN conjunct2, THEN conjunct2, THEN mp]
    by simp
  note 11 = parse_examples(2)
  show ?thesis
    by (rule conjI [OF 1 conjI [OF 2 conjI [OF 3 conjI [OF 4 conjI [OF 5 conjI [OF 6 conjI [OF 7
          conjI [OF 8 conjI [OF 9 conjI [OF 10 11]]]]]]]]]])
qed

end
